theory Spec2Isabelle
  imports Main "HOL-Library.AList"
begin

section \<open>Data exchanged with the backend\<close>

text \<open>
  The client receives JSON objects.  A field that may be missing (\<open>undefined\<close> in
  JavaScript) is an \<open>option\<close>.  Only the fields the client code reads are kept.
\<close>

record document_ref =
  doc_id :: string
  significant_pages :: "nat list option"

record page_ref =
  page_num :: nat

text \<open>The \<open>context\<close> object of an action (the enrichment the backend attaches).\<close>

record tool_context =
  tool :: "string option"
  documents :: "document_ref list option"
  pages :: "page_ref list option"
  file_path :: "string option"

record action =
  tool_name :: string
  action_context :: "tool_context option"

text \<open>
  A parsed inbound message, or the data object of an internally emitted event:
  \<open>{type, message, content, sessionId, actions, error}\<close>.
\<close>

record payload =
  type_field :: "string option"
  message_field :: "string option"
  content_field :: "string option"
  sessionId_field :: "string option"
  actions_field :: "action list option"
  error_field :: "string option"

definition empty_payload :: payload where
  "empty_payload = \<lparr>type_field = None, message_field = None, content_field = None,
     sessionId_field = None, actions_field = None, error_field = None\<rparr>"

text \<open>A decision object \<open>{decision, edited_arguments}\<close> and the two outbound frames.\<close>

record approval_decision =
  decision :: string
  edited_arguments :: "string option"

datatype outbound =
  StartAnalysis string
| ApprovalDecision "approval_decision option list"

section \<open>Connection manager: \<open>src/services/websocket.js\<close>\<close>

datatype readyState = CONNECTING | OPEN | CLOSING | CLOSED

text \<open>
  A call either returns or throws; in both cases the effects it had so far stay.
\<close>

datatype 'a result = Returns 'a | Throws string 'a

text \<open>
  Handlers are function objects, compared by reference (\<open>indexOf\<close>): a handler is
  its reference, and the function heap \<open>fns\<close> gives the code behind it.
\<close>

type_synonym handler_ref = nat

text \<open>The fields of the class \<open>AgentWebSocket\<close>; \<open>ws\<close> refers to a socket of the browser.\<close>

record agentWebSocket =
  sessionId :: string
  ws :: "nat option"
  messageHandlers :: "(string \<times> handler_ref list) list"
  isConnecting :: bool
  reconnectAttempts :: nat
  maxReconnectAttempts :: nat

text \<open>
  The manager together with what it acts on: the sockets the browser created (by index, with
  their \<open>readyState\<close>), the frames handed to \<open>ws.send\<close>, the delays of the
  \<open>setTimeout\<close> calls and how many of those timers have fired, the console, the
  exceptions that left an event callback, and the state \<open>app\<close> the handlers work on.
  \<open>emitted\<close> and \<open>calls\<close> record each \<open>notifyHandlers\<close> call and each handler
  invocation.
\<close>

record 'u world =
  mgr :: agentWebSocket
  sockets :: "readyState list"
  wire :: "(nat \<times> outbound) list"
  scheduled :: "nat list"
  fired :: nat
  emitted :: "(string \<times> payload) list"
  calls :: "(handler_ref \<times> payload) list"
  console :: "string list"
  uncaught :: "string list"
  app :: 'u

type_synonym 'u handler_heap = "handler_ref \<Rightarrow> payload \<Rightarrow> 'u \<Rightarrow> 'u result"

definition constructor :: "string \<Rightarrow> agentWebSocket" where
  "constructor sid = \<lparr>sessionId = sid, ws = None, messageHandlers = [],
     isConnecting = False, reconnectAttempts = 0, maxReconnectAttempts = 5\<rparr>"

definition new_world :: "string \<Rightarrow> 'u \<Rightarrow> 'u world" where
  "new_world sid u = \<lparr>mgr = constructor sid, sockets = [], wire = [], scheduled = [],
     fired = 0, emitted = [], calls = [], console = [], uncaught = [], app = u\<rparr>"

definition readyStateOf :: "'u world \<Rightarrow> nat \<Rightarrow> readyState" where
  "readyStateOf w i = (if i < length (sockets w) then sockets w ! i else CLOSED)"

text \<open>The test \<open>this.ws && this.ws.readyState === WebSocket.OPEN\<close>.\<close>

definition ws_open :: "'u world \<Rightarrow> bool" where
  "ws_open w = (case ws (mgr w) of None \<Rightarrow> False | Some i \<Rightarrow> readyStateOf w i = OPEN)"

definition console_log :: "string \<Rightarrow> 'u world \<Rightarrow> 'u world" where
  "console_log s w = w\<lparr>console := console w @ [s]\<rparr>"

text \<open>
  \<open>connect()\<close> creates a socket in state \<open>CONNECTING\<close>; the callbacks it installs on
  it are the functions \<open>onopen\<close>, \<open>onmessage\<close>, \<open>onerror\<close> and \<open>onclose\<close> below.
\<close>

definition connect :: "'u world \<Rightarrow> 'u world" where
  "connect w =
     (if isConnecting (mgr w) \<or> ws_open w then w
      else w\<lparr>mgr := (mgr w)\<lparr>isConnecting := True, ws := Some (length (sockets w))\<rparr>,
             sockets := sockets w @ [CONNECTING]\<rparr>)"

text \<open>\<open>this.messageHandlers.get(type) || []\<close>\<close>

definition get_handlers :: "agentWebSocket \<Rightarrow> string option \<Rightarrow> handler_ref list" where
  "get_handlers m t =
     (case t of None \<Rightarrow> []
      | Some k \<Rightarrow> (case map_of (messageHandlers m) k of None \<Rightarrow> [] | Some hs \<Rightarrow> hs))"

text \<open>
  \<open>handler(data)\<close>: the handler runs on the application state and may throw.  A handler
  is taken not to call back into the manager (those that \<open>App\<close> registers only set state
  hooks), so the handler list does not change while it is being walked.
\<close>

definition call_handler ::
  "'u handler_heap \<Rightarrow> payload \<Rightarrow> handler_ref \<Rightarrow> 'u world \<Rightarrow> 'u world result" where
  "call_handler fns data h w =
     (let w1 = w\<lparr>calls := calls w @ [(h, data)]\<rparr> in
      case fns h data (app w) of
        Returns u \<Rightarrow> Returns (w1\<lparr>app := u\<rparr>)
      | Throws e u \<Rightarrow> Throws e (w1\<lparr>app := u\<rparr>))"

text \<open>\<open>Array.prototype.forEach\<close>: an exception of the callback ends the loop.\<close>

fun forEach :: "'h list \<Rightarrow> ('h \<Rightarrow> 'w \<Rightarrow> 'w result) \<Rightarrow> 'w \<Rightarrow> 'w result" where
  "forEach [] f w = Returns w"
| "forEach (h # hs) f w =
     (case f h w of Returns w' \<Rightarrow> forEach hs f w' | Throws e w' \<Rightarrow> Throws e w')"

text \<open>\<open>try { body } catch (error) { console.error(...) }\<close>\<close>

definition try_catch_log :: "string \<Rightarrow> 'u world result \<Rightarrow> 'u world result" where
  "try_catch_log s r =
     (case r of Returns w \<Rightarrow> Returns w | Throws e w \<Rightarrow> Returns (console_log (s @ e) w))"

definition handleMessage :: "'u handler_heap \<Rightarrow> payload \<Rightarrow> 'u world \<Rightarrow> 'u world result" where
  "handleMessage fns message w =
     (let t = type_field message;
          w1 = console_log ''Received message:'' w;
          handlers = get_handlers (mgr w1) t
      in forEach handlers
           (\<lambda>handler w'. try_catch_log ''Error in handler: '' (call_handler fns message handler w'))
           w1)"

definition notifyHandlers ::
  "'u handler_heap \<Rightarrow> string \<Rightarrow> payload \<Rightarrow> 'u world \<Rightarrow> 'u world result" where
  "notifyHandlers fns t data w =
     (let w1 = w\<lparr>emitted := emitted w @ [(t, data)]\<rparr>;
          handlers = get_handlers (mgr w1) (Some t)
      in forEach handlers (\<lambda>handler w'. call_handler fns data handler w') w1)"

definition onopen :: "'u handler_heap \<Rightarrow> 'u world \<Rightarrow> 'u world result" where
  "onopen fns w =
     (let w1 = console_log ''WebSocket connected'' w;
          w2 = w1\<lparr>mgr := (mgr w1)\<lparr>isConnecting := False, reconnectAttempts := 0\<rparr>\<rparr>
      in notifyHandlers fns ''connected''
           (empty_payload\<lparr>sessionId_field := Some (sessionId (mgr w2))\<rparr>) w2)"

text \<open>
  What a socket delivers: a parsed message, or data that ends in the \<open>catch\<close> block of
  \<open>onmessage\<close> before any handler is looked up (text that \<open>JSON.parse\<close> rejects, or
  the value \<open>null\<close>, whose \<open>type\<close> cannot be read).
\<close>

datatype frame = Malformed | Parsed payload

definition onmessage :: "'u handler_heap \<Rightarrow> frame \<Rightarrow> 'u world \<Rightarrow> 'u world result" where
  "onmessage fns fr w =
     (case fr of
        Malformed \<Rightarrow> Returns (console_log ''Error parsing WebSocket message:'' w)
      | Parsed message \<Rightarrow>
          try_catch_log ''Error parsing WebSocket message: '' (handleMessage fns message w))"

definition onerror :: "'u handler_heap \<Rightarrow> string \<Rightarrow> 'u world \<Rightarrow> 'u world result" where
  "onerror fns err w =
     notifyHandlers fns ''error'' (empty_payload\<lparr>error_field := Some err\<rparr>)
       (console_log ''WebSocket error:'' w)"

definition onclose :: "'u handler_heap \<Rightarrow> 'u world \<Rightarrow> 'u world result" where
  "onclose fns w =
     (let w1 = console_log ''WebSocket closed'' w;
          w2 = w1\<lparr>mgr := (mgr w1)\<lparr>isConnecting := False\<rparr>\<rparr>
      in if reconnectAttempts (mgr w2) < maxReconnectAttempts (mgr w2) then
           let w3 = w2\<lparr>mgr := (mgr w2)\<lparr>reconnectAttempts := reconnectAttempts (mgr w2) + 1\<rparr>\<rparr>;
               w4 = console_log ''Reconnecting...'' w3
           in Returns (w4\<lparr>scheduled := scheduled w4 @ [2000 * reconnectAttempts (mgr w4)]\<rparr>)
         else
           notifyHandlers fns ''connection_failed''
             (empty_payload\<lparr>message_field := Some ''Failed to connect after multiple attempts''\<rparr>)
             w2)"

text \<open>
  \<open>on(messageType, handler)\<close> appends the handler; the function it returns is
  \<open>unsubscribe messageType handler\<close>, which removes the first occurrence found by
  \<open>indexOf\<close>.
\<close>

definition on :: "string \<Rightarrow> handler_ref \<Rightarrow> 'u world \<Rightarrow> 'u world" where
  "on messageType handler w =
     (let m = messageHandlers (mgr w);
          m1 = (if map_of m messageType = None then m @ [(messageType, [])] else m);
          m2 = AList.update messageType (the (map_of m1 messageType) @ [handler]) m1
      in w\<lparr>mgr := (mgr w)\<lparr>messageHandlers := m2\<rparr>\<rparr>)"




definition send :: "outbound \<Rightarrow> 'u world \<Rightarrow> 'u world" where
  "send message w =
     (case ws (mgr w) of
        None \<Rightarrow> console_log ''WebSocket not connected, cannot send message'' w
      | Some i \<Rightarrow>
          if readyStateOf w i = OPEN then w\<lparr>wire := wire w @ [(i, message)]\<rparr>
          else console_log ''WebSocket not connected, cannot send message'' w)"

text \<open>\<open>WebSocket.close()\<close> starts the closing handshake of a socket that is not closed.\<close>

definition socket_close :: "readyState \<Rightarrow> readyState" where
  "socket_close r = (case r of CONNECTING \<Rightarrow> CLOSING | OPEN \<Rightarrow> CLOSING | r' \<Rightarrow> r')"

definition close :: "'u world \<Rightarrow> 'u world" where
  "close w =
     (case ws (mgr w) of
        None \<Rightarrow> w
      | Some i \<Rightarrow>
          w\<lparr>sockets := (if i < length (sockets w)
                          then (sockets w)[i := socket_close (sockets w ! i)] else sockets w),
             mgr := (mgr w)\<lparr>ws := None\<rparr>\<rparr>)"

subsection \<open>The browser's events\<close>

text \<open>
  The browser runs one callback at a time.  An exception that leaves a callback is
  reported and the callback's effects so far stay.  A socket opens at most once and closes
  once; the timers fire in the order they were set (each delay is longer than the one
  before).  \<open>TimerFire\<close> runs the callback \<open>() => this.connect()\<close>.
\<close>

datatype event =
  SocketOpen nat
| SocketMessage nat frame
| SocketError nat string
| SocketClose nat
| TimerFire

definition enabled :: "event \<Rightarrow> 'u world \<Rightarrow> bool" where
  "enabled e w =
     (case e of
        SocketOpen i \<Rightarrow> i < length (sockets w) \<and> sockets w ! i = CONNECTING
      | SocketMessage i fr \<Rightarrow> i < length (sockets w) \<and> sockets w ! i = OPEN
      | SocketError i err \<Rightarrow> i < length (sockets w) \<and> sockets w ! i \<noteq> CLOSED
      | SocketClose i \<Rightarrow> i < length (sockets w) \<and> sockets w ! i \<noteq> CLOSED
      | TimerFire \<Rightarrow> fired w < length (scheduled w))"

definition settle :: "'u world result \<Rightarrow> 'u world" where
  "settle r = (case r of Returns w \<Rightarrow> w | Throws e w \<Rightarrow> w\<lparr>uncaught := uncaught w @ [e]\<rparr>)"

definition step :: "'u handler_heap \<Rightarrow> event \<Rightarrow> 'u world \<Rightarrow> 'u world" where
  "step fns e w =
     (if \<not> enabled e w then w
      else case e of
        SocketOpen i \<Rightarrow> settle (onopen fns (w\<lparr>sockets := (sockets w)[i := OPEN]\<rparr>))
      | SocketMessage i fr \<Rightarrow> settle (onmessage fns fr w)
      | SocketError i err \<Rightarrow> settle (onerror fns err w)
      | SocketClose i \<Rightarrow> settle (onclose fns (w\<lparr>sockets := (sockets w)[i := CLOSED]\<rparr>))
      | TimerFire \<Rightarrow> connect (w\<lparr>fired := fired w + 1\<rparr>))"

fun run :: "'u handler_heap \<Rightarrow> event list \<Rightarrow> 'u world \<Rightarrow> 'u world" where
  "run fns [] w = w"
| "run fns (e # es) w = run fns es (step fns e w)"

text \<open>
  The scenario "no successful reopen": the socket the manager holds closes without ever
  opening, and a pending timer fires when nothing else can happen.
\<close>

definition next_failure :: "'u world \<Rightarrow> event option" where
  "next_failure w =
     (let timer = (if enabled TimerFire w then Some TimerFire else None) in
      case ws (mgr w) of
        None \<Rightarrow> timer
      | Some i \<Rightarrow> if enabled (SocketClose i) w then Some (SocketClose i) else timer)"

fun failing_run :: "'u handler_heap \<Rightarrow> nat \<Rightarrow> 'u world \<Rightarrow> 'u world" where
  "failing_run fns 0 w = w"
| "failing_run fns (Suc k) w =
     (case next_failure w of None \<Rightarrow> w | Some e \<Rightarrow> failing_run fns k (step fns e w))"

text \<open>The world a call leaves behind, whether it returned or threw.\<close>

definition world_of :: "'a result \<Rightarrow> 'a" where
  "world_of r = (case r of Returns w \<Rightarrow> w | Throws e w \<Rightarrow> w)"

subsection \<open>Worlds and handler heaps used as concrete inputs\<close>

text \<open>A fresh manager whose registry already holds the subscriptions \<open>hs\<close>.\<close>

definition registered :: "(string \<times> handler_ref list) list \<Rightarrow> string \<Rightarrow> 'u \<Rightarrow> 'u world" where
  "registered hs sid u = (new_world sid u)\<lparr>mgr := (constructor sid)\<lparr>messageHandlers := hs\<rparr>\<rparr>"

text \<open>Handlers that do nothing, and handlers that note their own reference in the
  application state, the one with reference 0 throwing afterwards.\<close>

definition no_handlers :: "'u handler_heap" where
  "no_handlers h d u = Returns u"

definition throws_first :: "nat list handler_heap" where
  "throws_first h d u = (if h = 0 then Throws ''boom'' (u @ [h]) else Returns (u @ [h]))"

text \<open>A manager that connected and whose socket opened.\<close>

definition connected_world :: "'u \<Rightarrow> 'u world" where
  "connected_world u = step no_handlers (SocketOpen 0) (connect (new_world ''s'' u))"

text \<open>The same with handlers 0 and 1 subscribed, in this order, to the type \<open>t\<close>.\<close>

definition two_subscribers :: "string \<Rightarrow> nat list world" where
  "two_subscribers t =
     step throws_first (SocketOpen 0) (connect (on t 1 (on t 0 (new_world ''s'' []))))"

section \<open>Application state: \<open>src/App.js\<close>\<close>

text \<open>An entry of the timeline \<open>agentMessages\<close>: \<open>{type, content, timestamp}\<close>.\<close>

record timeline_entry =
  entry_type :: string
  content :: "string option"
  timestamp :: nat

text \<open>A workspace file as the file panel receives it.\<close>

record workspace_file =
  path :: string
  file_size :: nat
  modified :: nat

text \<open>The state hooks of \<open>App\<close> that the handlers below read or write.\<close>

record app_state =
  connectionStatus :: string
  selectedDocument :: "document_ref option"
  selectedFile :: "workspace_file option"
  layoutMode :: string
  agentMessages :: "timeline_entry list"
  approvalRequest :: "payload option"

definition initial_app :: app_state where
  "initial_app = \<lparr>connectionStatus = ''disconnected'', selectedDocument = None,
     selectedFile = None, layoutMode = ''default'', agentMessages = [], approvalRequest = None\<rparr>"

subsection \<open>Handlers of inbound messages\<close>

text \<open>\<open>now\<close> is the value of \<open>new Date()\<close> when the handler runs.\<close>

definition append_entry :: "string \<Rightarrow> string option \<Rightarrow> nat \<Rightarrow> app_state \<Rightarrow> app_state" where
  "append_entry ty c now s =
     s\<lparr>agentMessages := agentMessages s @ [\<lparr>entry_type = ty, content = c, timestamp = now\<rparr>]\<rparr>"

definition handleConnected :: "payload \<Rightarrow> app_state \<Rightarrow> app_state" where
  "handleConnected data s = s\<lparr>connectionStatus := ''connected''\<rparr>"

definition handleAnalysisStarted :: "nat \<Rightarrow> payload \<Rightarrow> app_state \<Rightarrow> app_state" where
  "handleAnalysisStarted now data s = append_entry ''system'' (message_field data) now s"

definition handleAgentMessage :: "nat \<Rightarrow> payload \<Rightarrow> app_state \<Rightarrow> app_state" where
  "handleAgentMessage now data s = append_entry ''agent'' (content_field data) now s"

definition handleApprovalRequired :: "nat \<Rightarrow> payload \<Rightarrow> app_state \<Rightarrow> app_state" where
  "handleApprovalRequired now data s =
     append_entry ''system'' (Some ''Waiting for your approval...'') now
       (s\<lparr>approvalRequest := Some data\<rparr>)"

definition handleApprovalProcessed :: "nat \<Rightarrow> payload \<Rightarrow> app_state \<Rightarrow> app_state" where
  "handleApprovalProcessed now data s =
     append_entry ''system'' (message_field data) now (s\<lparr>approvalRequest := None\<rparr>)"

definition handleAnalysisComplete :: "nat \<Rightarrow> payload \<Rightarrow> app_state \<Rightarrow> app_state" where
  "handleAnalysisComplete now data s = append_entry ''system'' (message_field data) now s"

text \<open>\<open>data.message || 'An error occurred'\<close>: a missing or empty message gives the default.\<close>

definition handleError :: "nat \<Rightarrow> payload \<Rightarrow> app_state \<Rightarrow> app_state" where
  "handleError now data s =
     append_entry ''error''
       (case message_field data of
          None \<Rightarrow> Some ''An error occurred''
        | Some m \<Rightarrow> if m = [] then Some ''An error occurred'' else Some m)
       now s"

text \<open>
  The seven function objects that \<open>initializeSession\<close> registers, by reference, and the
  registrations themselves followed by \<open>ws.connect()\<close>.  None of them throws.
\<close>

definition app_handlers :: "nat \<Rightarrow> app_state handler_heap" where
  "app_handlers now h data s =
     Returns (if h = 0 then handleConnected data s
              else if h = 1 then handleAnalysisStarted now data s
              else if h = 2 then handleAgentMessage now data s
              else if h = 3 then handleApprovalRequired now data s
              else if h = 4 then handleApprovalProcessed now data s
              else if h = 5 then handleAnalysisComplete now data s
              else if h = 6 then handleError now data s
              else s)"

definition initializeSession :: "string \<Rightarrow> app_state world" where
  "initializeSession newSessionId =
     connect
       (on ''error'' 6
       (on ''analysis_complete'' 5
       (on ''approval_processed'' 4
       (on ''approval_required'' 3
       (on ''agent_message'' 2
       (on ''analysis_started'' 1
       (on ''connected'' 0 (new_world newSessionId initial_app))))))))"

subsection \<open>Selection and layout\<close>

definition handleDocumentSelect :: "document_ref option \<Rightarrow> app_state \<Rightarrow> app_state" where
  "handleDocumentSelect doc s = s\<lparr>selectedDocument := doc, layoutMode := ''document-view''\<rparr>"

definition handleFileSelect :: "workspace_file option \<Rightarrow> app_state \<Rightarrow> app_state" where
  "handleFileSelect file s = s\<lparr>selectedFile := file, layoutMode := ''file-edit''\<rparr>"

record panel_sizes =
  left :: string
  center :: string
  right :: string

definition getPanelSizes :: "app_state \<Rightarrow> panel_sizes" where
  "getPanelSizes s =
     (if layoutMode s = ''document-view'' then \<lparr>left = ''40%'', center = ''40%'', right = ''20%''\<rparr>
      else if layoutMode s = ''file-edit'' then \<lparr>left = ''20%'', center = ''40%'', right = ''40%''\<rparr>
      else \<lparr>left = ''20%'', center = ''60%'', right = ''20%''\<rparr>)"

text \<open>
  What the user can do to the selections: click a document or a file (the panels call
  \<open>onDocumentSelect(doc)\<close>, \<open>onFileSelect(file)\<close>), or go back to the list
  (\<open>handleBackToList\<close> calls \<open>onDocumentSelect(null)\<close>, the file viewer's back button
  calls \<open>onFileSelect(null)\<close>).
\<close>

datatype selection =
  DocumentSelect "document_ref option"
| FileSelect "workspace_file option"

fun select :: "selection \<Rightarrow> app_state \<Rightarrow> app_state" where
  "select (DocumentSelect doc) s = handleDocumentSelect doc s"
| "select (FileSelect file) s = handleFileSelect file s"

fun selections :: "selection list \<Rightarrow> app_state \<Rightarrow> app_state" where
  "selections [] s = s"
| "selections (e # es) s = selections es (select e s)"

section \<open>Approval decisions: \<open>src/components/WorkflowPanel.js\<close>\<close>

text \<open>
  The panel's \<open>decisions\<close> array.  A JavaScript array may have holes; an element that was
  never assigned is \<open>None\<close>.  Assigning past the end extends the array.
\<close>

definition array_set :: "'a option list \<Rightarrow> nat \<Rightarrow> 'a \<Rightarrow> 'a option list" where
  "array_set xs i v =
     (if i < length xs then xs[i := Some v]
      else xs @ replicate (i - length xs) None @ [Some v])"

text \<open>\<open>sendApprovalDecisions\<close> of \<open>App\<close>, with the manager in place.\<close>

definition sendApprovalDecisions :: "approval_decision option list \<Rightarrow> 'u world \<Rightarrow> 'u world" where
  "sendApprovalDecisions ds w = send (ApprovalDecision ds) w"

text \<open>
  \<open>handleActionDecision(index, decision)\<close> for a pending request with the given actions:
  the state is the \<open>decisions\<close> array of the panel and the world of the manager.
\<close>

definition handleActionDecision ::
  "action list \<Rightarrow> nat \<Rightarrow> approval_decision
     \<Rightarrow> approval_decision option list \<times> 'u world \<Rightarrow> approval_decision option list \<times> 'u world" where
  "handleActionDecision actions index d st =
     (let newDecisions = array_set (fst st) index d in
      if length newDecisions = length actions
      then ([], sendApprovalDecisions newDecisions (snd st))
      else (newDecisions, snd st))"

fun record_decisions ::
  "action list \<Rightarrow> (nat \<times> approval_decision) list
     \<Rightarrow> approval_decision option list \<times> 'u world \<Rightarrow> approval_decision option list \<times> 'u world" where
  "record_decisions actions [] st = st"
| "record_decisions actions ((index, d) # rest) st =
     record_decisions actions rest (handleActionDecision actions index d st)"

text \<open>
  Reading a slot of an array (a hole or an index past the end reads as \<open>None\<close>), and
  the array after a run of assignments.
\<close>

definition slot :: "'a option list \<Rightarrow> nat \<Rightarrow> 'a option" where
  "slot xs j = (if j < length xs then xs ! j else None)"

fun fill :: "'a option list \<Rightarrow> (nat \<times> 'a) list \<Rightarrow> 'a option list" where
  "fill xs [] = xs"
| "fill xs ((i, v) # rest) = fill (array_set xs i v) rest"

definition handleApproveAll :: "action list \<Rightarrow> 'u world \<Rightarrow> approval_decision option list \<times> 'u world" where
  "handleApproveAll actions w =
     ([], sendApprovalDecisions
            (map (\<lambda>a. Some \<lparr>decision = ''approve'', edited_arguments = None\<rparr>) actions) w)"

definition handleRejectAll :: "action list \<Rightarrow> 'u world \<Rightarrow> approval_decision option list \<times> 'u world" where
  "handleRejectAll actions w =
     ([], sendApprovalDecisions
            (map (\<lambda>a. Some \<lparr>decision = ''reject'', edited_arguments = None\<rparr>) actions) w)"

definition approve :: approval_decision where
  "approve = \<lparr>decision = ''approve'', edited_arguments = None\<rparr>"

definition reject :: approval_decision where
  "reject = \<lparr>decision = ''reject'', edited_arguments = None\<rparr>"

definition some_action :: action where
  "some_action = \<lparr>tool_name = ''write_file'', action_context = None\<rparr>"

section \<open>Highlighting: \<open>src/components/DocumentPanel.js\<close>, \<open>src/components/FilePanel.js\<close>\<close>

text \<open>
  The effect of \<open>DocumentPanel\<close> that runs when \<open>approvalContext\<close> or \<open>documentDetail\<close>
  changes.  It returns the new value of the state \<open>highlightedPages\<close>; where the source makes
  no \<open>setHighlightedPages\<close> call the value stays.  \<open>x || []\<close> replaces a missing list by the
  empty one.
\<close>

definition or_empty :: "'a list option \<Rightarrow> 'a list" where
  "or_empty x = (case x of None \<Rightarrow> [] | Some xs \<Rightarrow> xs)"

definition highlightEffect ::
  "action option \<Rightarrow> document_ref option \<Rightarrow> nat list \<Rightarrow> nat list" where
  "highlightEffect approvalContext documentDetail highlightedPages =
     (case (case approvalContext of None \<Rightarrow> None | Some a \<Rightarrow> action_context a) of
        Some context \<Rightarrow>
          if tool context = Some ''get_documents'' \<and> documents context \<noteq> None then
            (case the (documents context) of
               [] \<Rightarrow> highlightedPages
             | firstDoc # others \<Rightarrow> or_empty (significant_pages firstDoc))
          else if tool context = Some ''get_page_text'' \<and> pages context \<noteq> None then
            map page_num (the (pages context))
          else highlightedPages
      | None \<Rightarrow>
          (case documentDetail of
             None \<Rightarrow> highlightedPages
           | Some detail \<Rightarrow> or_empty (significant_pages detail)))"

text \<open>\<open>isFileHighlighted(filePath)\<close> of \<open>FilePanel\<close>; the empty string is falsy.\<close>

definition isFileHighlighted :: "action option \<Rightarrow> string \<Rightarrow> bool" where
  "isFileHighlighted approvalContext filePath =
     (case approvalContext of
        None \<Rightarrow> False
      | Some a \<Rightarrow>
          (case action_context a of
             None \<Rightarrow> False
           | Some context \<Rightarrow>
               if (tool_name a = ''write_file'' \<or> tool_name a = ''edit_file'')
                  \<and> file_path context \<noteq> None \<and> file_path context \<noteq> Some []
               then file_path context = Some filePath
               else False))"

text \<open>The props \<open>App\<close> passes down: the first action of the pending request that a panel
  is interested in (\<open>approvalRequest?.actions?.find(...)\<close>).\<close>

definition pending_action :: "string list \<Rightarrow> payload option \<Rightarrow> action option" where
  "pending_action tools request =
     (case request of
        None \<Rightarrow> None
      | Some r \<Rightarrow>
          (case actions_field r of
             None \<Rightarrow> None
           | Some as \<Rightarrow> find (\<lambda>a. tool_name a \<in> set tools) as))"

definition document_action :: "payload option \<Rightarrow> action option" where
  "document_action request = pending_action [''get_documents'', ''get_page_text''] request"

definition file_action :: "payload option \<Rightarrow> action option" where
  "file_action request = pending_action [''write_file'', ''edit_file''] request"

section \<open>The file tree: \<open>buildFileTree\<close> in \<open>src/components/FilePanel.js\<close>\<close>

text \<open>\<open>String.prototype.split\<close> with a one-character separator.\<close>

fun split :: "char \<Rightarrow> string \<Rightarrow> string list" where
  "split c [] = [[]]"
| "split c (x # xs) =
     (if x = c then [] # split c xs
      else (case split c xs of p # ps \<Rightarrow> (x # p) # ps | [] \<Rightarrow> [[x]]))"

text \<open>\<open>file.path.split('/').filter(p => p)\<close>\<close>

definition parts :: "workspace_file \<Rightarrow> string list" where
  "parts file = filter (\<lambda>p. p \<noteq> []) (split (CHR ''/'') (path file))"

text \<open>
  The entries of a node's \<open>files\<close> array: the file with the name it has in its directory.
\<close>

record tree_file = workspace_file +
  name :: string

definition tree_entry :: "workspace_file \<Rightarrow> string \<Rightarrow> tree_file" where
  "tree_entry file part =
     \<lparr>path = path file, file_size = file_size file, modified = modified file, name = part\<rparr>"

subsection \<open>Objects and their properties\<close>

text \<open>
  \<open>buildFileTree\<close> reads \<open>current.files\<close>, \<open>current.dirs\<close> and \<open>current.dirs[part]\<close> with
  JavaScript's property lookup, which also finds what an object inherits.  So the walk can
  leave the tree it builds and write to objects that outlive the call, and the model has an
  explicit store.

  An object is named by the place where the code created it: \<open>Root\<close> is the object \<open>tree\<close>
  of the call, \<open>Prop x k\<close> the object that the code assigned to the property \<open>k\<close> of \<open>x\<close>.
  The code assigns a property only when it reads as empty and never assigns it again, so
  such a name denotes one object.  \<open>Proto\<close> is \<open>Object.prototype\<close>, and \<open>Builtin k\<close> the
  function that every object inherits under the name \<open>k\<close> (\<open>Object\<close> for \<open>constructor\<close>).

  The store gives, for each property the code has assigned, what it holds: an object made
  by \<open>{}\<close> or an array with its entries.
\<close>

datatype ref = Root | Proto | Builtin string | Prop ref string

datatype obj = PlainObj | ArrayObj "tree_file list"

type_synonym heap = "ref \<Rightarrow> obj option"

text \<open>The store of a page on which the function has not run.\<close>

definition pristine :: heap where
  "pristine = (\<lambda>r. None)"

text \<open>
  The names that \<open>Object.prototype\<close> gives to every object: under \<open>__proto__\<close> the
  prototype itself, under the others a function.
\<close>

definition inherited :: "string list" where
  "inherited = [''constructor'', ''__proto__'', ''toString'', ''toLocaleString'', ''valueOf'',
     ''hasOwnProperty'', ''isPrototypeOf'', ''propertyIsEnumerable'', ''__defineGetter__'',
     ''__defineSetter__'', ''__lookupGetter__'', ''__lookupSetter__'']"

text \<open>
  \<open>x[k]\<close>: the own property if the code has assigned it; else, for every object but
  \<open>Object.prototype\<close> itself, what the code has assigned to \<open>Object.prototype\<close> under
  \<open>k\<close>; else the built-in property of \<open>Object.prototype\<close> of that name, where
  \<open>Object.prototype.__proto__\<close> is \<open>null\<close>.  Every value found is an object, hence truthy;
  \<open>None\<close> is \<open>undefined\<close>.

  The walk can reach arrays and functions as \<open>current\<close>, and reads \<open>files\<close> and \<open>dirs\<close>
  of them: neither is a built-in name there.  The objects it indexes with a part of a path
  are values of \<open>dirs\<close>, all made by \<open>{}\<close>.
\<close>

definition read :: "heap \<Rightarrow> ref \<Rightarrow> string \<Rightarrow> ref option" where
  "read h x k =
     (if h (Prop x k) \<noteq> None then Some (Prop x k)
      else if x \<noteq> Proto \<and> h (Prop Proto k) \<noteq> None then Some (Prop Proto k)
      else if k = ''__proto__'' then (if x = Proto then None else Some Proto)
      else if k \<in> set inherited then Some (Builtin k)
      else None)"

text \<open>\<open>if (!x[k]) x[k] = new\<close>, followed by the value \<open>x[k]\<close> then has.\<close>

definition ensure :: "heap \<Rightarrow> ref \<Rightarrow> string \<Rightarrow> obj \<Rightarrow> heap \<times> ref" where
  "ensure h x k new =
     (case read h x k of
        Some r \<Rightarrow> (h, r)
      | None \<Rightarrow> (h(Prop x k \<mapsto> new), Prop x k))"

subsection \<open>The function\<close>

text \<open>
  The inner loop \<open>parts.forEach((part, index) => ...)\<close> on the remaining parts, from the
  object \<open>current\<close>.  \<open>current.files.push\<close> throws a \<open>TypeError\<close> when \<open>current.files\<close> is
  not an array.
\<close>

fun insert_file :: "workspace_file \<Rightarrow> string list \<Rightarrow> ref \<Rightarrow> heap \<Rightarrow> heap result" where
  "insert_file file [] current h = Returns h"
| "insert_file file [part] current h =
     (case ensure h current ''files'' (ArrayObj []) of
        (h1, a) \<Rightarrow>
          (case h1 a of
             Some (ArrayObj entries) \<Rightarrow>
               Returns (h1(a \<mapsto> ArrayObj (entries @ [tree_entry file part])))
           | _ \<Rightarrow> Throws ''TypeError: current.files.push is not a function'' h1))"
| "insert_file file (part # rest) current h =
     (case ensure h current ''dirs'' PlainObj of
        (h1, d) \<Rightarrow>
          (case ensure h1 d part PlainObj of
             (h2, next) \<Rightarrow> insert_file file rest next h2))"

text \<open>The outer loop \<open>files.forEach(file => ...)\<close>: each walk starts at \<open>tree\<close>.\<close>

fun build_from :: "workspace_file list \<Rightarrow> heap \<Rightarrow> heap result" where
  "build_from [] h = Returns h"
| "build_from (file # rest) h =
     (case insert_file file (parts file) Root h of
        Returns h' \<Rightarrow> build_from rest h'
      | Throws e h' \<Rightarrow> Throws e h')"

text \<open>
  \<open>const tree = {}\<close> is a new object: what an earlier call hung below its own tree is not
  below this one.  Everything else in the store stays.
\<close>

fun base :: "ref \<Rightarrow> ref" where
  "base (Prop r k) = base r"
| "base r = r"

definition new_tree :: "heap \<Rightarrow> heap" where
  "new_tree h = (\<lambda>r. if base r = Root then None else h r)"

text \<open>
  \<open>buildFileTree(files)\<close>, called when the store is \<open>h\<close>.  The value returned is the object
  \<open>Root\<close> of the store returned.
\<close>

definition buildFileTree :: "heap \<Rightarrow> workspace_file list \<Rightarrow> heap result" where
  "buildFileTree h files = build_from files (new_tree h)"

subsection \<open>Reading the tree\<close>

text \<open>
  What \<open>renderFileTree\<close> finds below a node \<open>n\<close>: it goes down through \<open>n.dirs\<close>, the names
  \<open>Object.keys(n.dirs)\<close> (own properties only) and \<open>n.dirs[name]\<close>, and lists \<open>n.files\<close>.
\<close>

fun has_dir :: "heap \<Rightarrow> ref \<Rightarrow> string list \<Rightarrow> bool" where
  "has_dir h n [] = True"
| "has_dir h n (d # ds) =
     (case read h n ''dirs'' of
        None \<Rightarrow> False
      | Some dict \<Rightarrow> h (Prop dict d) \<noteq> None \<and> has_dir h (Prop dict d) ds)"

definition entries_of :: "heap \<Rightarrow> ref \<Rightarrow> tree_file list" where
  "entries_of h a = (case h a of Some (ArrayObj es) \<Rightarrow> es | _ \<Rightarrow> [])"

fun files_at :: "heap \<Rightarrow> ref \<Rightarrow> string list \<Rightarrow> tree_file list" where
  "files_at h n [] = (case read h n ''files'' of None \<Rightarrow> [] | Some a \<Rightarrow> entries_of h a)"
| "files_at h n (d # ds) =
     (case read h n ''dirs'' of
        None \<Rightarrow> []
      | Some dict \<Rightarrow> if h (Prop dict d) \<noteq> None then files_at h (Prop dict d) ds else [])"

text \<open>\<open>ds\<close> is a proper prefix of \<open>ps\<close>: the path \<open>ps\<close> goes through the directory \<open>ds\<close>.\<close>

definition traverses :: "string list \<Rightarrow> string list \<Rightarrow> bool" where
  "traverses ps ds = (length ds < length ps \<and> take (length ds) ps = ds)"

text \<open>No directory segment of any path is an inherited property name.\<close>

definition no_inherited_dirs :: "workspace_file list \<Rightarrow> bool" where
  "no_inherited_dirs fs =
     list_all (\<lambda>f. list_all (\<lambda>d. d \<notin> set inherited) (butlast (parts f))) fs"

text \<open>The code has assigned no property of \<open>Object.prototype\<close>.\<close>

definition unpolluted :: "heap \<Rightarrow> bool" where
  "unpolluted h = (\<forall>k. h (Prop Proto k) = None)"

text \<open>
  The entries expected at the directory \<open>ds\<close>: one for each file of the list whose parts
  are \<open>ds\<close> followed by a name, in the order of the list.
\<close>

definition placed :: "workspace_file list \<Rightarrow> string list \<Rightarrow> tree_file list" where
  "placed fs ds =
     map (\<lambda>f. tree_entry f (last (parts f)))
       (filter (\<lambda>f. parts f \<noteq> [] \<and> butlast (parts f) = ds) fs)"

subsection \<open>Trees that stay within themselves\<close>

text \<open>
  The objects of the tree proper: \<open>Root\<close>, and the object under a name in the \<open>dirs\<close> of
  such an object; \<open>node_from n ds\<close> is the one reached from \<open>n\<close> along \<open>ds\<close>.
\<close>

fun is_node :: "ref \<Rightarrow> bool" where
  "is_node Root = True"
| "is_node (Prop (Prop r d) k) = (d = ''dirs'' \<and> is_node r)"
| "is_node r = False"

fun node_from :: "ref \<Rightarrow> string list \<Rightarrow> ref" where
  "node_from n [] = n"
| "node_from n (d # ds) = node_from (Prop (Prop n ''dirs'') d) ds"

text \<open>
  What a walk from the node \<open>n\<close> along \<open>ps\<close> makes sure of when no name is inherited, and
  the array it pushes onto.
\<close>

fun new_refs :: "ref \<Rightarrow> string list \<Rightarrow> ref list" where
  "new_refs n [] = []"
| "new_refs n [part] = [Prop n ''files'']"
| "new_refs n (part # rest) =
     Prop n ''dirs'' # Prop (Prop n ''dirs'') part # new_refs (Prop (Prop n ''dirs'') part) rest"

definition target :: "ref \<Rightarrow> string list \<Rightarrow> ref" where
  "target n ps = Prop (node_from n (butlast ps)) ''files''"

text \<open>The property names on the way from the base of a reference to the object.\<close>

fun keys :: "ref \<Rightarrow> string list" where
  "keys (Prop r k) = keys r @ [k]"
| "keys r = []"

definition dir_keys :: "string list \<Rightarrow> string list" where
  "dir_keys ds = concat (map (\<lambda>d. [''dirs'', d]) ds)"

text \<open>
  The stores that the walks keep to while no name is inherited: \<open>Object.prototype\<close> is as
  the page found it, the \<open>files\<close> of a node is an array, and below \<open>Root\<close> an object holds
  properties only if it is there itself.
\<close>

definition tree_ok :: "heap \<Rightarrow> bool" where
  "tree_ok h \<longleftrightarrow>
     unpolluted h
     \<and> (\<forall>n. is_node n \<longrightarrow> h (Prop n ''files'') \<noteq> Some PlainObj)
     \<and> (\<forall>r j k. base r = Root \<longrightarrow> h (Prop (Prop r j) k) \<noteq> None \<longrightarrow> h (Prop r j) \<noteq> None)"

definition present :: "heap \<Rightarrow> ref \<Rightarrow> bool" where
  "present h n \<longleftrightarrow> n = Root \<or> h n \<noteq> None"

section \<open>Concrete inputs\<close>

definition doc1 :: document_ref where
  "doc1 = \<lparr>doc_id = ''1'', significant_pages = Some [2, 5]\<rparr>"

definition doc2 :: document_ref where
  "doc2 = \<lparr>doc_id = ''2'', significant_pages = Some [9]\<rparr>"

definition file1 :: workspace_file where
  "file1 = \<lparr>path = ''/report/r.md'', file_size = 10, modified = 0\<rparr>"

definition documents_action :: action where
  "documents_action = \<lparr>tool_name = ''get_documents'',
     action_context = Some \<lparr>tool = Some ''get_documents'', documents = Some [doc1, doc2],
       pages = None, file_path = None\<rparr>\<rparr>"

definition no_documents_action :: action where
  "no_documents_action = \<lparr>tool_name = ''get_documents'',
     action_context = Some \<lparr>tool = Some ''get_documents'', documents = Some [], pages = None,
       file_path = None\<rparr>\<rparr>"

definition pages_action :: action where
  "pages_action = \<lparr>tool_name = ''get_page_text'',
     action_context = Some \<lparr>tool = Some ''get_page_text'', documents = None,
       pages = Some [\<lparr>page_num = 3\<rparr>, \<lparr>page_num = 4\<rparr>], file_path = None\<rparr>\<rparr>"

definition write_action :: action where
  "write_action = \<lparr>tool_name = ''write_file'',
     action_context = Some \<lparr>tool = None, documents = None, pages = None,
       file_path = Some ''/report/r.md''\<rparr>\<rparr>"

definition write_request :: payload where
  "write_request = empty_payload\<lparr>type_field := Some ''approval_required'',
     actions_field := Some [write_action]\<rparr>"

definition processed_done :: payload where
  "processed_done = empty_payload\<lparr>type_field := Some ''approval_processed'',
     message_field := Some ''done''\<rparr>"

text \<open>The application after its socket opened and an \<open>approval_required\<close> message came in.\<close>

definition approval_pending :: "app_state world" where
  "approval_pending = run (app_handlers 1)
     [SocketOpen 0, SocketMessage 0 (Parsed write_request)] (initializeSession ''s'')"

definition slash_file :: workspace_file where
  "slash_file = \<lparr>path = ''/'', file_size = 1, modified = 0\<rparr>"

definition notes_file :: workspace_file where
  "notes_file = \<lparr>path = ''//notes/n.txt'', file_size = 2, modified = 0\<rparr>"

text \<open>
  Files whose paths go through inherited names, and the stores that the calls on them
  leave.
\<close>

definition constructor_file :: workspace_file where
  "constructor_file = \<lparr>path = ''constructor/x.md'', file_size = 3, modified = 0\<rparr>"

definition proto_file :: workspace_file where
  "proto_file = \<lparr>path = ''__proto__/p.md'', file_size = 4, modified = 0\<rparr>"

definition files_dir_file :: workspace_file where
  "files_dir_file = \<lparr>path = ''__proto__/files/y.md'', file_size = 5, modified = 0\<rparr>"

definition dirs_dir_file :: workspace_file where
  "dirs_dir_file = \<lparr>path = ''dirs/z.md'', file_size = 6, modified = 0\<rparr>"

definition outside_heap :: heap where
  "outside_heap = pristine(Prop Root ''dirs'' \<mapsto> PlainObj,
     Prop (Builtin ''constructor'') ''files'' \<mapsto> ArrayObj [tree_entry constructor_file ''x.md''])"

definition prototype_heap :: heap where
  "prototype_heap = pristine(Prop Root ''dirs'' \<mapsto> PlainObj,
     Prop Proto ''files'' \<mapsto> ArrayObj [tree_entry proto_file ''p.md''])"

definition later_heap :: heap where
  "later_heap = pristine(Prop Root ''dirs'' \<mapsto> PlainObj,
     Prop (Prop Root ''dirs'') ''report'' \<mapsto> PlainObj,
     Prop Proto ''files'' \<mapsto>
       ArrayObj [tree_entry proto_file ''p.md'', tree_entry file1 ''r.md''])"

section \<open>Properties of the connection manager\<close>

subsection \<open>Handlers leave the connection alone\<close>

lemma result_simps:
  "settle (Returns w) = w" "world_of (Returns w) = w" "world_of (Throws e w) = w"
  by (simp_all add: settle_def world_of_def)

lemma forEach_call_frame:
  "mgr (world_of (forEach hs (call_handler fns d) w)) = mgr w \<and>
   sockets (world_of (forEach hs (call_handler fns d) w)) = sockets w \<and>
   wire (world_of (forEach hs (call_handler fns d) w)) = wire w \<and>
   scheduled (world_of (forEach hs (call_handler fns d) w)) = scheduled w \<and>
   fired (world_of (forEach hs (call_handler fns d) w)) = fired w \<and>
   emitted (world_of (forEach hs (call_handler fns d) w)) = emitted w \<and>
   uncaught (world_of (forEach hs (call_handler fns d) w)) = uncaught w"
proof (induction hs arbitrary: w)
  case Nil
  show ?case by (simp add: world_of_def)
next
  case (Cons h hs)
  show ?case
  proof (cases "fns h d (app w)")
    case (Returns u)
    then have "forEach (h # hs) (call_handler fns d) w =
        forEach hs (call_handler fns d) (w\<lparr>calls := calls w @ [(h, d)], app := u\<rparr>)"
      by (simp add: call_handler_def)
    then show ?thesis using Cons.IH [of "w\<lparr>calls := calls w @ [(h, d)], app := u\<rparr>"] by simp
  next
    case (Throws e u)
    then show ?thesis by (simp add: call_handler_def world_of_def)
  qed
qed

lemma settle_fields:
  "mgr (settle r) = mgr (world_of r)" "sockets (settle r) = sockets (world_of r)"
  "wire (settle r) = wire (world_of r)" "scheduled (settle r) = scheduled (world_of r)"
  "fired (settle r) = fired (world_of r)" "emitted (settle r) = emitted (world_of r)"
  by (cases r; simp add: settle_def world_of_def)+

lemma notifyHandlers_fields:
  "mgr (world_of (notifyHandlers fns t d w)) = mgr w"
  "sockets (world_of (notifyHandlers fns t d w)) = sockets w"
  "wire (world_of (notifyHandlers fns t d w)) = wire w"
  "scheduled (world_of (notifyHandlers fns t d w)) = scheduled w"
  "fired (world_of (notifyHandlers fns t d w)) = fired w"
  "emitted (world_of (notifyHandlers fns t d w)) = emitted w @ [(t, d)]"
  by (simp_all add: notifyHandlers_def Let_def forEach_call_frame)

subsection \<open>Running the failure scenario\<close>

lemma failing_run_numeral:
  "failing_run fns (numeral k) w =
     (case next_failure w of None \<Rightarrow> w
      | Some e \<Rightarrow> failing_run fns (pred_numeral k) (step fns e w))"
  by (simp add: numeral_eq_Suc)



lemmas conn_eval = next_failure_def enabled_def step_def connect_def new_world_def constructor_def
  ws_open_def readyStateOf_def onclose_def console_log_def registered_def Let_def
  failing_run_numeral settle_fields notifyHandlers_fields result_simps

lemmas reg_eval = on_def get_handlers_def call_handler_def notifyHandlers_def handleMessage_def
  onopen_def onmessage_def try_catch_log_def settle_def throws_first_def empty_payload_def
  no_handlers_def



subsection \<open>Sending\<close>

text \<open>
  C8.  \<open>send\<close> hands the message to the socket exactly when the manager holds a socket
  whose state is open.  Otherwise nothing is transmitted and the only effect is one more
  line on the console: the manager's fields and everything else stay as they were.  No
  statement of either branch can throw (the outbound messages are plain data that
  \<open>JSON.stringify\<close> accepts), so \<open>send\<close> always returns.
\<close>

theorem send_only_when_open:
  "(ws_open w \<longrightarrow> (\<exists>i. ws (mgr w) = Some i \<and> send m w = w\<lparr>wire := wire w @ [(i, m)]\<rparr>))
   \<and> (\<not> ws_open w \<longrightarrow> wire (send m w) = wire w \<and> mgr (send m w) = mgr w
        \<and> send m w = w\<lparr>console := console w @ [''WebSocket not connected, cannot send message'']\<rparr>)"
  by (auto simp: send_def ws_open_def console_log_def split: option.splits)

theorem send_only_when_open_witness:
  "ws_open (connected_world ())
   \<and> wire (send (StartAnalysis ''go'') (connected_world ())) = [(0, StartAnalysis ''go'')]
   \<and> \<not> ws_open (close (connected_world ()))
   \<and> wire (send (StartAnalysis ''go'') (close (connected_world ()))) = []
   \<and> mgr (send (StartAnalysis ''go'') (close (connected_world ()))) = mgr (close (connected_world ()))"
proof -
  let ?w = "connected_world ()"
  have o: "ws_open ?w" "ws (mgr ?w) = Some 0" "wire ?w = []"
    by (simp_all add: connected_world_def conn_eval onopen_def)
  have c: "\<not> ws_open (close ?w)" "wire (close ?w) = []"
    by (simp_all add: connected_world_def conn_eval onopen_def close_def)
  from send_only_when_open [of ?w "StartAnalysis ''go''"] o
  have 1: "wire (send (StartAnalysis ''go'') ?w) = [(0, StartAnalysis ''go'')]" by auto
  from send_only_when_open [of "close ?w" "StartAnalysis ''go''"] c
  have 2: "wire (send (StartAnalysis ''go'') (close ?w)) = []"
    "mgr (send (StartAnalysis ''go'') (close ?w)) = mgr (close ?w)" by auto
  from o c 1 2 show ?thesis by simp
qed

subsection \<open>Dispatch of inbound messages\<close>

text \<open>
  \<open>handleMessage\<close> always returns, and it calls every handler subscribed to the message's
  type, in registration order, whatever the handlers before it did.
\<close>

lemma forEach_caught:
  "\<exists>w'. forEach hs (\<lambda>h v. try_catch_log s (call_handler fns d h v)) w = Returns w'
     \<and> calls w' = calls w @ map (\<lambda>h. (h, d)) hs
     \<and> mgr w' = mgr w \<and> sockets w' = sockets w \<and> wire w' = wire w \<and> scheduled w' = scheduled w
     \<and> fired w' = fired w \<and> emitted w' = emitted w \<and> uncaught w' = uncaught w"
proof (induction hs arbitrary: w)
  case Nil
  show ?case by simp
next
  case (Cons h hs)
  obtain w1 where w1: "try_catch_log s (call_handler fns d h w) = Returns w1"
    and f1: "calls w1 = calls w @ [(h, d)]" "mgr w1 = mgr w" "sockets w1 = sockets w"
      "wire w1 = wire w" "scheduled w1 = scheduled w" "fired w1 = fired w"
      "emitted w1 = emitted w" "uncaught w1 = uncaught w"
    by (cases "fns h d (app w)") (simp_all add: try_catch_log_def call_handler_def console_log_def)
  from Cons.IH [of w1] obtain w' where
    "forEach hs (\<lambda>h v. try_catch_log s (call_handler fns d h v)) w1 = Returns w'"
    "calls w' = calls w1 @ map (\<lambda>h. (h, d)) hs"
    "mgr w' = mgr w1" "sockets w' = sockets w1" "wire w' = wire w1" "scheduled w' = scheduled w1"
    "fired w' = fired w1" "emitted w' = emitted w1" "uncaught w' = uncaught w1"
    by blast
  with w1 f1 show ?case by simp
qed

lemma handleMessage_isolates:
  "\<exists>w'. handleMessage fns message w = Returns w'
     \<and> calls w' = calls w @ map (\<lambda>h. (h, message)) (get_handlers (mgr w) (type_field message))
     \<and> mgr w' = mgr w \<and> sockets w' = sockets w \<and> wire w' = wire w \<and> scheduled w' = scheduled w
     \<and> fired w' = fired w \<and> emitted w' = emitted w \<and> uncaught w' = uncaught w"
  using forEach_caught [of "get_handlers (mgr w) (type_field message)" "''Error in handler: ''"
      fns message "console_log ''Received message:'' w"]
  by (simp add: handleMessage_def Let_def console_log_def)

text \<open>
  Dispatching an inbound message never throws: \<open>handleMessage\<close> returns after
  calling every handler subscribed to the message's type, once each and in registration
  order, whether or not some of them threw, and it leaves the manager, the sockets, the
  timers and the emitted events as they were.
\<close>

theorem inbound_dispatch_isolates:
  "\<exists>w'. handleMessage fns message w = Returns w'
     \<and> calls w' = calls w @ map (\<lambda>h. (h, message)) (get_handlers (mgr w) (type_field message))
     \<and> mgr w' = mgr w \<and> sockets w' = sockets w \<and> scheduled w' = scheduled w
     \<and> emitted w' = emitted w"
  using handleMessage_isolates [of fns message w] by blast

lemma inbound_isolated_example:
  "map fst (calls (step throws_first
       (SocketMessage 0 (Parsed (empty_payload\<lparr>type_field := Some ''agent_message''\<rparr>)))
       (two_subscribers ''agent_message''))) = [0, 1]
   \<and> uncaught (step throws_first
       (SocketMessage 0 (Parsed (empty_payload\<lparr>type_field := Some ''agent_message''\<rparr>)))
       (two_subscribers ''agent_message'')) = []"
  by (simp add: two_subscribers_def conn_eval reg_eval)

text \<open>
  C2, the code at the failing input.  Handlers 0 and 1 are subscribed to \<open>connected\<close>, in
  this order, and handler 0 throws.  When the socket opens, \<open>notifyHandlers\<close> calls handler
  0 only: handler 1 is never invoked, and the exception leaves the \<open>onopen\<close> callback.  The
  isolation that \<open>handleMessage\<close> gives to inbound messages is missing for the events the
  manager emits itself.
\<close>

theorem notifyHandlers_propagates:
  "map fst (calls (step throws_first (SocketOpen 0)
       (connect (on ''connected'' 1 (on ''connected'' 0 (new_world ''s'' [])))))) = [0]
   \<and> app (step throws_first (SocketOpen 0)
       (connect (on ''connected'' 1 (on ''connected'' 0 (new_world ''s'' []))))) = [0]
   \<and> uncaught (step throws_first (SocketOpen 0)
       (connect (on ''connected'' 1 (on ''connected'' 0 (new_world ''s'' []))))) = [''boom'']"
  by (simp add: conn_eval reg_eval)

subsection \<open>Subscribing and unsubscribing\<close>








subsection \<open>Closing\<close>

text \<open>
  C3 as stated fails.  A manager connects, its socket opens, and \<open>close()\<close> is called.  The
  close event of that socket then runs the \<open>onclose\<close> callback as for any other closure: a
  reconnect is scheduled after 2000 ms, and when the timer fires \<open>connect\<close> creates a new
  socket.
\<close>

theorem close_then_reconnect_counterexample:
  "scheduled (step no_handlers (SocketClose 0) (close (connected_world ()))) = [2000]
   \<and> ws (mgr (step no_handlers TimerFire
         (step no_handlers (SocketClose 0) (close (connected_world ()))))) = Some 1"
  by (simp add: connected_world_def close_def socket_close_def conn_eval reg_eval)

text \<open>
  C3 as amended.  \<open>close()\<close> on a manager that holds a socket which is not closed calls
  \<open>close\<close> on that socket and forgets it (so \<open>send\<close> finds no socket afterwards); it
  schedules nothing and emits nothing itself.  The socket's close event is then still
  enabled, and it is handled like any other closure: with fewer than
  \<open>maxReconnectAttempts\<close> attempts made it schedules the next attempt (after 2000 ms times
  the new counter), otherwise it emits \<open>connection_failed\<close>.
\<close>

theorem close_then_transport_close:
  assumes "ws (mgr w) = Some i" and "i < length (sockets w)" and "sockets w ! i \<noteq> CLOSED"
  shows "scheduled (close w) = scheduled w \<and> emitted (close w) = emitted w
     \<and> ws (mgr (close w)) = None \<and> \<not> ws_open (close w)
     \<and> sockets (close w) = (sockets w)[i := socket_close (sockets w ! i)]
     \<and> enabled (SocketClose i) (close w)
     \<and> scheduled (step fns (SocketClose i) (close w)) =
         (if reconnectAttempts (mgr w) < maxReconnectAttempts (mgr w)
          then scheduled w @ [2000 * (reconnectAttempts (mgr w) + 1)] else scheduled w)
     \<and> map fst (emitted (step fns (SocketClose i) (close w))) =
         (if reconnectAttempts (mgr w) < maxReconnectAttempts (mgr w)
          then map fst (emitted w) else map fst (emitted w) @ [''connection_failed''])"
proof -
  have c: "scheduled (close w) = scheduled w" "emitted (close w) = emitted w"
    "ws (mgr (close w)) = None" "\<not> ws_open (close w)"
    "sockets (close w) = (sockets w)[i := socket_close (sockets w ! i)]"
    "reconnectAttempts (mgr (close w)) = reconnectAttempts (mgr w)"
    "maxReconnectAttempts (mgr (close w)) = maxReconnectAttempts (mgr w)"
    using assms by (simp_all add: close_def ws_open_def)
  have e: "enabled (SocketClose i) (close w)"
    using assms by (cases "sockets w ! i") (simp_all add: enabled_def c socket_close_def)
  have s: "scheduled (step fns (SocketClose i) (close w)) =
         (if reconnectAttempts (mgr w) < maxReconnectAttempts (mgr w)
          then scheduled w @ [2000 * (reconnectAttempts (mgr w) + 1)] else scheduled w)"
    using e by (simp add: step_def onclose_def Let_def console_log_def settle_fields
        notifyHandlers_fields result_simps c)
  have m: "map fst (emitted (step fns (SocketClose i) (close w))) =
         (if reconnectAttempts (mgr w) < maxReconnectAttempts (mgr w)
          then map fst (emitted w) else map fst (emitted w) @ [''connection_failed''])"
    using e by (simp add: step_def onclose_def Let_def console_log_def settle_fields
        notifyHandlers_fields result_simps c)
  from c e s m show ?thesis by simp
qed

theorem close_then_transport_close_witness:
  "ws (mgr (connected_world ())) = Some 0 \<and> 0 < length (sockets (connected_world ()))
   \<and> sockets (connected_world ()) ! 0 \<noteq> CLOSED
   \<and> enabled (SocketClose 0) (close (connected_world ()))
   \<and> scheduled (step no_handlers (SocketClose 0) (close (connected_world ()))) = [2000]"
proof -
  have a: "ws (mgr (connected_world ())) = Some 0" "0 < length (sockets (connected_world ()))"
    "sockets (connected_world ()) ! 0 \<noteq> CLOSED"
    and b: "scheduled (connected_world ()) = []" "reconnectAttempts (mgr (connected_world ())) = 0"
      "maxReconnectAttempts (mgr (connected_world ())) = 5"
    by (simp_all add: connected_world_def conn_eval reg_eval)
  from close_then_transport_close [OF a, of no_handlers] b
  have "enabled (SocketClose 0) (close (connected_world ()))"
    "scheduled (step no_handlers (SocketClose 0) (close (connected_world ()))) = [2000]"
    by simp_all
  with a show ?thesis by simp
qed

section \<open>Properties of the application state\<close>

subsection \<open>Layout\<close>

lemmas app_eval = initial_app_def handleDocumentSelect_def handleFileSelect_def getPanelSizes_def

text \<open>
  C4 as stated fails.  The user selects a document and then a file.  A document is selected,
  yet the widths are 20/40/40 and not 40/40/20: the layout mode is a state of its own that
  the last selection call sets, and nothing clears the other selection.
\<close>

theorem layout_both_selected_counterexample:
  "selectedDocument (selections [DocumentSelect (Some doc1), FileSelect (Some file1)] initial_app) = Some doc1
   \<and> getPanelSizes (selections [DocumentSelect (Some doc1), FileSelect (Some file1)] initial_app)
       = \<lparr>left = ''20%'', center = ''40%'', right = ''40%''\<rparr>"
  by (simp add: app_eval)

text \<open>
  Going back to the list calls the same handler with no document, which sets the layout mode
  again: nothing is selected and the widths are still 40/40/20.
\<close>

lemma layout_after_deselect:
  "selectedDocument (selections [DocumentSelect (Some doc1), DocumentSelect None] initial_app) = None
   \<and> selectedFile (selections [DocumentSelect (Some doc1), DocumentSelect None] initial_app) = None
   \<and> getPanelSizes (selections [DocumentSelect (Some doc1), DocumentSelect None] initial_app)
       = \<lparr>left = ''40%'', center = ''40%'', right = ''20%''\<rparr>"
  by (simp add: app_eval)

lemma selections_append: "selections (es @ fs) s = selections fs (selections es s)"
  by (induction es arbitrary: s) auto

text \<open>
  C4 as amended.  The widths are a function of the stored layout mode alone.  They are
  20/60/20 before any selection; right after a document is selected they are 40/40/20 and
  right after a file is selected they are 20/40/40, whatever was selected before.
\<close>

theorem layout_follows_last_selection:
  "getPanelSizes initial_app = \<lparr>left = ''20%'', center = ''60%'', right = ''20%''\<rparr>
   \<and> selectedDocument initial_app = None \<and> selectedFile initial_app = None
   \<and> selectedDocument (selections (es @ [DocumentSelect (Some doc)]) initial_app) = Some doc
   \<and> getPanelSizes (selections (es @ [DocumentSelect (Some doc)]) initial_app)
       = \<lparr>left = ''40%'', center = ''40%'', right = ''20%''\<rparr>
   \<and> selectedFile (selections (es @ [FileSelect (Some file)]) initial_app) = Some file
   \<and> getPanelSizes (selections (es @ [FileSelect (Some file)]) initial_app)
       = \<lparr>left = ''20%'', center = ''40%'', right = ''40%''\<rparr>"
  by (simp add: selections_append app_eval)

subsection \<open>The timeline\<close>

text \<open>Every handler of the application returns, and it only appends to the timeline.\<close>

lemma append_only_handler:
  "\<exists>u es. app_handlers now h d s = Returns u \<and> agentMessages u = agentMessages s @ es"
  by (simp add: app_handlers_def handleConnected_def handleAnalysisStarted_def handleAgentMessage_def
      handleApprovalRequired_def handleApprovalProcessed_def handleAnalysisComplete_def
      handleError_def append_entry_def)

lemma call_app_handler:
  "\<exists>w' es. call_handler (app_handlers now) d h w = Returns w'
     \<and> agentMessages (app w') = agentMessages (app w) @ es"
  using append_only_handler [of now h d "app w"] by (auto simp: call_handler_def)

lemma forEach_app_caught:
  "\<exists>w' es. forEach hs (\<lambda>h v. try_catch_log s (call_handler (app_handlers now) d h v)) w = Returns w'
     \<and> agentMessages (app w') = agentMessages (app w) @ es"
proof (induction hs arbitrary: w)
  case Nil
  show ?case by simp
next
  case (Cons h hs)
  from call_app_handler [of now d h w] obtain w1 es1 where
    1: "call_handler (app_handlers now) d h w = Returns w1"
      "agentMessages (app w1) = agentMessages (app w) @ es1" by blast
  from Cons.IH [of w1] obtain w' es where
    2: "forEach hs (\<lambda>h v. try_catch_log s (call_handler (app_handlers now) d h v)) w1 = Returns w'"
      "agentMessages (app w') = agentMessages (app w1) @ es" by blast
  from 1 2 show ?case by (simp add: try_catch_log_def)
qed

lemma forEach_app_plain:
  "\<exists>w' es. forEach hs (call_handler (app_handlers now) d) w = Returns w'
     \<and> agentMessages (app w') = agentMessages (app w) @ es"
proof (induction hs arbitrary: w)
  case Nil
  show ?case by simp
next
  case (Cons h hs)
  from call_app_handler [of now d h w] obtain w1 es1 where
    1: "call_handler (app_handlers now) d h w = Returns w1"
      "agentMessages (app w1) = agentMessages (app w) @ es1" by blast
  from Cons.IH [of w1] obtain w' es where
    2: "forEach hs (call_handler (app_handlers now) d) w1 = Returns w'"
      "agentMessages (app w') = agentMessages (app w1) @ es" by blast
  from 1 2 show ?case by simp
qed

lemma notify_app:
  "app w' = app w \<Longrightarrow>
   \<exists>es. agentMessages (app (settle (notifyHandlers (app_handlers now) t d w')))
          = agentMessages (app w) @ es"
  using forEach_app_plain [of "get_handlers (mgr w') (Some t)" now d "w'\<lparr>emitted := emitted w' @ [(t, d)]\<rparr>"]
  by (auto simp: notifyHandlers_def Let_def settle_def)

lemma onopen_app:
  "app w' = app w \<Longrightarrow>
   \<exists>es. agentMessages (app (settle (onopen (app_handlers now) w'))) = agentMessages (app w) @ es"
  unfolding onopen_def Let_def by (rule notify_app) (simp add: console_log_def)

lemma onerror_app:
  "\<exists>es. agentMessages (app (settle (onerror (app_handlers now) err w))) = agentMessages (app w) @ es"
  unfolding onerror_def by (rule notify_app) (simp add: console_log_def)

lemma onclose_app:
  "app w' = app w \<Longrightarrow>
   \<exists>es. agentMessages (app (settle (onclose (app_handlers now) w'))) = agentMessages (app w) @ es"
proof (cases "reconnectAttempts (mgr w') < maxReconnectAttempts (mgr w')")
  case True
  assume "app w' = app w"
  with True show ?thesis by (simp add: onclose_def Let_def console_log_def settle_def)
next
  case False
  assume a: "app w' = app w"
  from False have "onclose (app_handlers now) w' =
      notifyHandlers (app_handlers now) ''connection_failed''
        (empty_payload\<lparr>message_field := Some ''Failed to connect after multiple attempts''\<rparr>)
        ((console_log ''WebSocket closed'' w')\<lparr>mgr := (mgr (console_log ''WebSocket closed'' w'))\<lparr>isConnecting := False\<rparr>\<rparr>)"
    by (simp add: onclose_def Let_def console_log_def)
  moreover have "\<exists>es. agentMessages (app (settle (notifyHandlers (app_handlers now) ''connection_failed''
        (empty_payload\<lparr>message_field := Some ''Failed to connect after multiple attempts''\<rparr>)
        ((console_log ''WebSocket closed'' w')\<lparr>mgr := (mgr (console_log ''WebSocket closed'' w'))\<lparr>isConnecting := False\<rparr>\<rparr>))))
        = agentMessages (app w) @ es"
    by (rule notify_app) (simp add: console_log_def a)
  ultimately show ?thesis by simp
qed

lemma onmessage_app:
  "\<exists>es. agentMessages (app (settle (onmessage (app_handlers now) fr w))) = agentMessages (app w) @ es"
proof (cases fr)
  case Malformed
  then show ?thesis by (simp add: onmessage_def console_log_def settle_def)
next
  case (Parsed m)
  from forEach_app_caught [of "get_handlers (mgr w) (type_field m)" "''Error in handler: ''" now m
      "console_log ''Received message:'' w"]
  obtain w' es where "handleMessage (app_handlers now) m w = Returns w'"
    "agentMessages (app w') = agentMessages (app w) @ es"
    by (auto simp: handleMessage_def Let_def console_log_def)
  with Parsed show ?thesis by (simp add: onmessage_def try_catch_log_def settle_def)
qed

lemma step_append_only:
  "\<exists>es. agentMessages (app (step (app_handlers now) e w)) = agentMessages (app w) @ es"
proof (cases "enabled e w")
  case False
  then show ?thesis by (simp add: step_def)
next
  case True
  show ?thesis
  proof (cases e)
    case (SocketOpen i)
    with True show ?thesis by (simp add: step_def onopen_app)
  next
    case (SocketMessage i fr)
    with True show ?thesis by (simp add: step_def onmessage_app)
  next
    case (SocketError i err)
    with True show ?thesis by (simp add: step_def onerror_app)
  next
    case (SocketClose i)
    with True show ?thesis by (simp add: step_def onclose_app)
  next
    case TimerFire
    with True show ?thesis by (simp add: step_def connect_def)
  qed
qed

lemma run_append_only:
  "\<exists>es. agentMessages (app (run (app_handlers now) evs w)) = agentMessages (app w) @ es"
proof (induction evs arbitrary: w)
  case Nil
  show ?case by simp
next
  case (Cons e evs)
  from step_append_only [of now e w] obtain es1 where
    "agentMessages (app (step (app_handlers now) e w)) = agentMessages (app w) @ es1" by blast
  moreover from Cons.IH [of "step (app_handlers now) e w"] obtain es2 where
    "agentMessages (app (run (app_handlers now) evs (step (app_handlers now) e w)))
       = agentMessages (app (step (app_handlers now) e w)) @ es2" by blast
  ultimately show ?case by simp
qed

lemma app_registry:
  "get_handlers (mgr (initializeSession sid)) (Some ''approval_processed'') = [4]"
  by (simp add: initializeSession_def connect_def ws_open_def on_def get_handlers_def new_world_def
      constructor_def Let_def)

text \<open>
  C7.  With the subscriptions of \<open>initializeSession\<close> in place, an \<open>approval_processed\<close>
  message arriving on an open socket clears the pending request and appends one entry of
  type \<open>system\<close> whose content is the \<open>message\<close> field of the message; nothing else of the
  application state changes.  Whatever the browser delivers (a message of any type, a
  malformed frame, an open, error or close event, a timer), and for any sequence of such
  events, the timeline after it is the timeline before it followed by new entries.
\<close>

theorem approval_processed_appends:
  "(messageHandlers (mgr w) = messageHandlers (mgr (initializeSession sid))
      \<and> type_field m = Some ''approval_processed''
      \<and> enabled (SocketMessage i (Parsed m)) w \<longrightarrow>
      app (step (app_handlers now) (SocketMessage i (Parsed m)) w)
        = (app w)\<lparr>approvalRequest := None,
                  agentMessages := agentMessages (app w)
                    @ [\<lparr>entry_type = ''system'', content = message_field m, timestamp = now\<rparr>]\<rparr>)
   \<and> (\<exists>es. agentMessages (app (step (app_handlers now) e v)) = agentMessages (app v) @ es)
   \<and> (\<exists>es. agentMessages (app (run (app_handlers now) evs v)) = agentMessages (app v) @ es)"
proof -
  have "app (step (app_handlers now) (SocketMessage i (Parsed m)) w)
        = (app w)\<lparr>approvalRequest := None,
                  agentMessages := agentMessages (app w)
                    @ [\<lparr>entry_type = ''system'', content = message_field m, timestamp = now\<rparr>]\<rparr>"
    if r: "messageHandlers (mgr w) = messageHandlers (mgr (initializeSession sid))"
      and t: "type_field m = Some ''approval_processed''"
      and e: "enabled (SocketMessage i (Parsed m)) w"
  proof -
    from r have "get_handlers (mgr w) (Some ''approval_processed'')
        = get_handlers (mgr (initializeSession sid)) (Some ''approval_processed'')"
      by (simp add: get_handlers_def)
    then have hs: "get_handlers (mgr w) (type_field m) = [4]"
      by (simp add: app_registry t)
    have "handleMessage (app_handlers now) m w =
        Returns ((console_log ''Received message:'' w)
          \<lparr>calls := calls w @ [(4, m)], app := handleApprovalProcessed now m (app w)\<rparr>)"
      by (simp add: handleMessage_def Let_def console_log_def hs call_handler_def try_catch_log_def
          app_handlers_def)
    with e show ?thesis
      by (simp add: step_def onmessage_def try_catch_log_def settle_def console_log_def
          handleApprovalProcessed_def append_entry_def)
  qed
  with step_append_only [of now e v] run_append_only [of now evs v] show ?thesis by blast
qed

lemmas app_run_eval = approval_pending_def initializeSession_def processed_done_def write_request_def write_action_def
  initial_app_def app_handlers_def handleConnected_def handleApprovalRequired_def append_entry_def
  conn_eval reg_eval

lemma approval_pending_facts:
  "messageHandlers (mgr approval_pending) = messageHandlers (mgr (initializeSession ''s''))"
  "enabled (SocketMessage 0 (Parsed processed_done)) approval_pending"
  "agentMessages (app approval_pending)
     = [\<lparr>entry_type = ''system'', content = Some ''Waiting for your approval...'', timestamp = 1\<rparr>]"
  by (simp_all add: app_run_eval)

theorem approval_processed_appends_witness:
  "messageHandlers (mgr approval_pending) = messageHandlers (mgr (initializeSession ''s''))
   \<and> type_field processed_done = Some ''approval_processed''
   \<and> enabled (SocketMessage 0 (Parsed processed_done)) approval_pending
   \<and> approvalRequest (app (step (app_handlers 2) (SocketMessage 0 (Parsed processed_done))
        approval_pending)) = None
   \<and> agentMessages (app (step (app_handlers 2) (SocketMessage 0 (Parsed processed_done))
        approval_pending))
       = [\<lparr>entry_type = ''system'', content = Some ''Waiting for your approval...'', timestamp = 1\<rparr>,
          \<lparr>entry_type = ''system'', content = Some ''done'', timestamp = 2\<rparr>]"
proof -
  have t: "type_field processed_done = Some ''approval_processed''"
    "message_field processed_done = Some ''done''"
    by (simp_all add: processed_done_def)
  from approval_processed_appends [of approval_pending "''s''" processed_done 0 2]
    approval_pending_facts t
  have "app (step (app_handlers 2) (SocketMessage 0 (Parsed processed_done)) approval_pending)
        = (app approval_pending)\<lparr>approvalRequest := None,
             agentMessages := agentMessages (app approval_pending)
               @ [\<lparr>entry_type = ''system'', content = message_field processed_done, timestamp = 2\<rparr>]\<rparr>"
    by blast
  with approval_pending_facts t show ?thesis by simp
qed

section \<open>Properties of the approval decisions\<close>

lemmas decision_eval = handleActionDecision_def array_set_def sendApprovalDecisions_def send_def
  connected_world_def approve_def reject_def some_action_def

text \<open>
  C6, the code at the failing input.  Two actions are pending and the human resolves the
  second one first.  Assigning index 1 to the empty array gives it length 2, the length test
  succeeds, and the frame is sent at once with a hole where the decision for the first
  action belongs.  The later decision for the first action starts a new array and is never
  sent.
\<close>

theorem last_first_sends_hole:
  "fst (record_decisions [some_action, some_action] [(1, approve), (0, reject)]
          ([], connected_world ())) = [Some reject]
   \<and> map snd (wire (snd (record_decisions [some_action, some_action] [(1, approve), (0, reject)]
          ([], connected_world ())))) = [ApprovalDecision [None, Some approve]]"
  by (simp add: decision_eval conn_eval reg_eval)

text \<open>Resolved in the order of the actions, the same two decisions are sent complete.\<close>

lemma in_order_sends_all:
  "fst (record_decisions [some_action, some_action] [(0, reject), (1, approve)]
          ([], connected_world ())) = []
   \<and> map snd (wire (snd (record_decisions [some_action, some_action] [(0, reject), (1, approve)]
          ([], connected_world ())))) = [ApprovalDecision [Some reject, Some approve]]"
  by (simp add: decision_eval conn_eval reg_eval)

subsection \<open>Any order of resolution\<close>

lemma length_array_set: "length (array_set xs i v) = max (length xs) (Suc i)"
  by (auto simp: array_set_def)

lemma slot_array_set: "slot (array_set xs i v) j = (if j = i then Some v else slot xs j)"
  by (auto simp: slot_def array_set_def nth_append)

lemma length_fill:
  "\<forall>r \<in> set rs. fst r < m \<Longrightarrow> length xs \<le> m \<Longrightarrow> length (fill xs rs) \<le> m"
  by (induction xs rs rule: fill.induct) (auto simp: length_array_set)

lemma slot_fill:
  "distinct (map fst rs) \<Longrightarrow>
   slot (fill xs rs) j = (case map_of rs j of None \<Rightarrow> slot xs j | Some v \<Rightarrow> Some v)"
proof (induction xs rs rule: fill.induct)
  case (1 xs)
  show ?case by simp
next
  case (2 xs i v rest)
  then have "map_of rest i = None" by (simp add: map_of_eq_None_iff)
  with 2 show ?case by (auto simp: slot_array_set split: option.splits)
qed

lemma record_below:
  "\<forall>r \<in> set rs. fst r < length as - 1 \<Longrightarrow> length xs < length as \<Longrightarrow>
   record_decisions as rs (xs, w) = (fill xs rs, w)"
proof (induction xs rs rule: fill.induct)
  case (1 xs)
  show ?case by simp
next
  case (2 xs i v rest)
  from "2.prems" have i: "i < length as - 1" and rest: "\<forall>r \<in> set rest. fst r < length as - 1"
    by simp_all
  from i have "Suc i < length as" by arith
  with "2.prems" have l: "length (array_set xs i v) < length as"
    by (simp add: length_array_set)
  then have "handleActionDecision as i v (xs, w) = (array_set xs i v, w)"
    by (simp add: handleActionDecision_def)
  with "2.IH" [OF rest l] show ?case by simp
qed

lemma record_last:
  assumes "length xs < length as"
  shows "record_decisions as ((length as - 1, d) # rest) (xs, w)
     = record_decisions as rest ([], sendApprovalDecisions (array_set xs (length as - 1) d) w)"
proof -
  from assms have "max (length xs) (Suc (length as - 1)) = length as" by arith
  then have "length (array_set xs (length as - 1) d) = length as"
    by (simp only: length_array_set)
  then show ?thesis by (simp add: handleActionDecision_def)
qed

lemma split_at_last:
  fixes n :: nat
  assumes "n - 1 \<in> fst ` set rs" and "distinct (map fst rs)" and "\<forall>r \<in> set rs. fst r < n"
  shows "\<exists>pre d post. rs = pre @ (n - 1, d) # post
     \<and> (\<forall>r \<in> set pre. fst r < n - 1) \<and> (\<forall>r \<in> set post. fst r < n - 1)
     \<and> distinct (map fst pre)"
proof -
  from assms(1) obtain d where "(n - 1, d) \<in> set rs" by auto
  then obtain pre post where rs: "rs = pre @ (n - 1, d) # post"
    by (auto simp: in_set_conv_decomp)
  from assms(2) rs have "n - 1 \<notin> fst ` set pre" "n - 1 \<notin> fst ` set post" "distinct (map fst pre)"
    by auto
  moreover from assms(3) rs have "\<forall>r \<in> set pre. fst r < n" "\<forall>r \<in> set post. fst r < n"
    by auto
  ultimately have "\<forall>r \<in> set pre. fst r < n - 1" "\<forall>r \<in> set post. fst r < n - 1"
  proof -
    assume a: "n - 1 \<notin> fst ` set pre" "n - 1 \<notin> fst ` set post"
      and b: "\<forall>r \<in> set pre. fst r < n" "\<forall>r \<in> set post. fst r < n"
    show "\<forall>r \<in> set pre. fst r < n - 1"
    proof
      fix r assume r: "r \<in> set pre"
      with a(1) have "fst r \<noteq> n - 1" by (metis imageI)
      moreover from r b(1) have "fst r < n" by blast
      ultimately show "fst r < n - 1" by arith
    qed
    show "\<forall>r \<in> set post. fst r < n - 1"
    proof
      fix r assume r: "r \<in> set post"
      with a(2) have "fst r \<noteq> n - 1" by (metis imageI)
      moreover from r b(2) have "fst r < n" by blast
      ultimately show "fst r < n - 1" by arith
    qed
  qed
  with rs \<open>distinct (map fst pre)\<close> show ?thesis by blast
qed

lemma record_decisions_append:
  "record_decisions as (rs @ rs') st = record_decisions as rs' (record_decisions as rs st)"
  by (induction as rs st rule: record_decisions.induct) auto

text \<open>
  On an open connection, let the human resolve every action of a non-empty request
  exactly once, in any order.  Then exactly one frame is sent, at the moment the last action
  of the request is resolved; its array has the length of the request; the entry of the last
  action is its decision, and the entry of any other action is its decision if that action
  was resolved before the last one and a hole if it was resolved after.
\<close>

theorem one_frame_with_holes:
  assumes "as \<noteq> []" and "distinct (map fst rs)" and "fst ` set rs = {..<length as}"
    and "ws_open w"
  shows "\<exists>pre d post F i. rs = pre @ (length as - 1, d) # post
     \<and> ws (mgr w) = Some i
     \<and> wire (snd (record_decisions as rs ([], w))) = wire w @ [(i, ApprovalDecision F)]
     \<and> length F = length as
     \<and> F ! (length as - 1) = Some d
     \<and> (\<forall>j < length as - 1. F ! j = map_of pre j)"
proof -
  let ?n = "length as"
  from assms(1) have n: "0 < ?n" by simp
  then have "?n - 1 \<in> fst ` set rs" using assms(3) by simp
  moreover from assms(3) have "\<forall>r \<in> set rs. fst r < ?n" by auto
  ultimately obtain pre d post where rs: "rs = pre @ (?n - 1, d) # post"
    and pre: "\<forall>r \<in> set pre. fst r < ?n - 1" and post: "\<forall>r \<in> set post. fst r < ?n - 1"
    and dp: "distinct (map fst pre)"
    using split_at_last [OF _ assms(2), of ?n] by blast
  let ?F = "array_set (fill [] pre) (?n - 1) d"
  let ?w1 = "sendApprovalDecisions ?F w"
  have l0: "length ([] :: approval_decision option list) < ?n" using n by simp
  have lp: "length (fill [] pre) \<le> ?n - 1"
    using length_fill [OF pre, of "[]"] by simp
  then have lp': "length (fill [] pre) < ?n" using n by arith
  have "record_decisions as rs ([], w)
      = record_decisions as post (record_decisions as ((?n - 1, d) # []) (record_decisions as pre ([], w)))"
    by (simp add: rs record_decisions_append)
  also have "record_decisions as pre ([], w) = (fill [] pre, w)"
    by (rule record_below [OF pre l0])
  also have "record_decisions as ((?n - 1, d) # []) (fill [] pre, w) = ([], ?w1)"
    using record_last [OF lp', of d "[]" w] by simp
  also have "record_decisions as post ([], ?w1) = (fill [] post, ?w1)"
    by (rule record_below [OF post l0])
  finally have res: "record_decisions as rs ([], w) = (fill [] post, ?w1)" .
  from assms(4) obtain i where i: "ws (mgr w) = Some i" and "readyStateOf w i = OPEN"
    by (auto simp: ws_open_def split: option.splits)
  then have wire: "wire ?w1 = wire w @ [(i, ApprovalDecision ?F)]"
    by (simp add: sendApprovalDecisions_def send_def)
  from lp' have "max (length (fill [] pre)) (Suc (?n - 1)) = ?n" by arith
  then have lF: "length ?F = ?n"
    by (simp only: length_array_set)
  have last: "?F ! (?n - 1) = Some d"
    using slot_array_set [of "fill [] pre" "?n - 1" d "?n - 1"] lF n by (simp add: slot_def)
  have other: "?F ! j = map_of pre j" if "j < ?n - 1" for j
  proof -
    from that have "j < ?n" by arith
    with lF have "?F ! j = slot ?F j" by (simp add: slot_def)
    also from that have "\<dots> = slot (fill [] pre) j" by (simp add: slot_array_set)
    also have "\<dots> = (case map_of pre j of None \<Rightarrow> slot [] j | Some v \<Rightarrow> Some v)"
      by (rule slot_fill [OF dp])
    also have "\<dots> = map_of pre j"
      by (simp add: slot_def split: option.splits)
    finally show ?thesis .
  qed
  from res wire have "wire (snd (record_decisions as rs ([], w))) = wire w @ [(i, ApprovalDecision ?F)]"
    by simp
  with rs i lF last other show ?thesis by blast
qed

theorem one_frame_with_holes_witness:
  "[some_action, some_action] \<noteq> []
   \<and> distinct (map fst [(1 :: nat, approve), (0, reject)])
   \<and> fst ` set [(1 :: nat, approve), (0, reject)] = {..<length [some_action, some_action]}
   \<and> ws_open (connected_world ())
   \<and> (\<exists>F. map snd (wire (snd (record_decisions [some_action, some_action]
                [(1, approve), (0, reject)] ([], connected_world ())))) = [ApprovalDecision F]
          \<and> length F = 2 \<and> F ! 1 = Some approve)"
proof -
  let ?as = "[some_action, some_action]"
  let ?rs = "[(1 :: nat, approve), (0, reject)]"
  have h: "?as \<noteq> []" "distinct (map fst ?rs)" "fst ` set ?rs = {..<length ?as}"
    "ws_open (connected_world ())"
  proof -
    show "?as \<noteq> []" by simp
    show "distinct (map fst ?rs)" by simp
    show "fst ` set ?rs = {..<length ?as}" by (auto simp: lessThan_Suc)
    show "ws_open (connected_world ())" by (simp add: connected_world_def conn_eval reg_eval)
  qed
  have w: "wire (connected_world ()) = []"
    by (simp add: connected_world_def conn_eval reg_eval)
  from one_frame_with_holes [OF h] obtain pre d post F i where
    x: "?rs = pre @ (length ?as - 1, d) # post
     \<and> ws (mgr (connected_world ())) = Some i
     \<and> wire (snd (record_decisions ?as ?rs ([], connected_world ())))
          = wire (connected_world ()) @ [(i, ApprovalDecision F)]
     \<and> length F = length ?as
     \<and> F ! (length ?as - 1) = Some d
     \<and> (\<forall>j < length ?as - 1. F ! j = map_of pre j)"
    by (elim exE)
  from x have rs: "?rs = pre @ (1, d) # post" by simp
  have "(1, d) \<in> set (pre @ (1, d) # post)" by simp
  with rs have "(1, d) \<in> set ?rs" by (simp only:)
  then have d: "d = approve" by simp
  from x have wr: "wire (snd (record_decisions ?as ?rs ([], connected_world ())))
          = wire (connected_world ()) @ [(i, ApprovalDecision F)]"
    and lf: "length F = length ?as" and fd: "F ! (length ?as - 1) = Some d"
    by blast+
  from wr lf fd w d have f: "map snd (wire (snd (record_decisions ?as ?rs ([], connected_world ()))))
       = [ApprovalDecision F] \<and> length F = 2 \<and> F ! 1 = Some approve"
    by simp
  from h f show ?thesis by (intro conjI exI [of _ F]) simp_all
qed

text \<open>
  On an open connection \<open>handleApproveAll\<close> and \<open>handleRejectAll\<close> send at once one
  frame with one uniform decision per action and clear the panel's array; on a connection
  that is not open they send nothing.
\<close>

theorem batch_decisions:
  "(ws_open w \<longrightarrow>
      (\<exists>i. ws (mgr w) = Some i
         \<and> handleApproveAll as w
             = ([], w\<lparr>wire := wire w @ [(i, ApprovalDecision (replicate (length as) (Some approve)))]\<rparr>)
         \<and> handleRejectAll as w
             = ([], w\<lparr>wire := wire w @ [(i, ApprovalDecision (replicate (length as) (Some reject)))]\<rparr>)))
   \<and> (\<not> ws_open w \<longrightarrow>
         wire (snd (handleApproveAll as w)) = wire w \<and> wire (snd (handleRejectAll as w)) = wire w)"
  by (auto simp: handleApproveAll_def handleRejectAll_def sendApprovalDecisions_def send_def
      ws_open_def approve_def reject_def console_log_def map_replicate_const split: option.splits)

theorem batch_decisions_witness:
  "ws_open (connected_world ())
   \<and> map snd (wire (snd (handleApproveAll [some_action, some_action] (connected_world ()))))
       = [ApprovalDecision [Some approve, Some approve]]
   \<and> \<not> ws_open (close (connected_world ()))
   \<and> wire (snd (handleRejectAll [some_action, some_action] (close (connected_world ())))) = []"
proof -
  let ?w = "connected_world ()"
  have o: "ws_open ?w" "wire ?w = []" and c: "\<not> ws_open (close ?w)" "wire (close ?w) = []"
    by (simp_all add: connected_world_def conn_eval reg_eval close_def)
  from batch_decisions [of ?w "[some_action, some_action]"] o
  have 1: "map snd (wire (snd (handleApproveAll [some_action, some_action] ?w)))
       = [ApprovalDecision [Some approve, Some approve]]"
    by auto
  from batch_decisions [of "close ?w" "[some_action, some_action]"] c
  have 2: "wire (snd (handleRejectAll [some_action, some_action] (close ?w))) = []"
    by auto
  from o c 1 2 show ?thesis by simp
qed

section \<open>Properties of the highlighting\<close>

text \<open>
  C5 as stated fails: the highlight is not a function of the pending action's context.  For
  a \<open>get_documents\<close> action that lists no document the effect leaves \<open>highlightedPages\<close>
  as it was, so the same context shows page 7 highlighted or nothing highlighted, depending
  on what was highlighted before.
\<close>

theorem highlight_keeps_previous_counterexample:
  "highlightEffect (Some no_documents_action) None [7] = [7]
   \<and> highlightEffect (Some no_documents_action) None [] = []"
  by (simp add: highlightEffect_def no_documents_action_def)

text \<open>
  C5 as amended.  When the context of the pending action has \<open>tool = get_documents\<close> and
  lists at least one document, the highlighted pages are the \<open>significant_pages\<close> of the
  first listed document (none when it has no such field), whatever the later documents and
  the previous highlight are.  When it has \<open>tool = get_page_text\<close> and a list of pages, they
  are the page numbers of that list.  For a \<open>write_file\<close> or \<open>edit_file\<close> action with a
  non-empty \<open>file_path\<close>, \<open>isFileHighlighted\<close> holds for that path and no other.  With no
  pending action for the document panel and a loaded document, the highlighted pages are
  that document's \<open>significant_pages\<close>; with none for the file panel, no file is
  highlighted.

  In every other case the highlighted pages stay what they were: when the context has
  \<open>tool = get_documents\<close> and an empty list of documents; when the context fits neither case
  (its \<open>tool\<close> is neither of the two, or the list that goes with it is missing), even with a
  document loaded; and when there is no pending action, or one without a context, and no
  document is loaded.  A pending action without a context counts as none: with a document
  loaded, that document's \<open>significant_pages\<close> are highlighted.
\<close>

theorem highlight_derivation:
  "(action_context a = Some c \<and> tool c = Some ''get_documents'' \<and> documents c = Some (d # ds) \<longrightarrow>
      highlightEffect (Some a) detail prev = or_empty (significant_pages d))
   \<and> (action_context a = Some c \<and> tool c = Some ''get_page_text'' \<and> pages c = Some ps \<longrightarrow>
      highlightEffect (Some a) detail prev = map page_num ps)
   \<and> (action_context a = Some c \<and> (tool_name a = ''write_file'' \<or> tool_name a = ''edit_file'')
        \<and> file_path c = Some p \<and> p \<noteq> [] \<longrightarrow>
      (isFileHighlighted (Some a) q \<longleftrightarrow> q = p))
   \<and> (document_action request = None \<longrightarrow>
      highlightEffect (document_action request) (Some det) prev = or_empty (significant_pages det))
   \<and> (file_action request = None \<longrightarrow> \<not> isFileHighlighted (file_action request) q)
   \<and> (action_context a = Some c \<and> tool c = Some ''get_documents'' \<and> documents c = Some [] \<longrightarrow>
      highlightEffect (Some a) detail prev = prev)
   \<and> (action_context a = Some c
        \<and> \<not> (tool c = Some ''get_documents'' \<and> documents c \<noteq> None)
        \<and> \<not> (tool c = Some ''get_page_text'' \<and> pages c \<noteq> None) \<longrightarrow>
      highlightEffect (Some a) detail prev = prev)
   \<and> (action_context a = None \<longrightarrow>
      highlightEffect (Some a) (Some det) prev = or_empty (significant_pages det)
      \<and> highlightEffect (Some a) None prev = prev)
   \<and> highlightEffect None None prev = prev"
  by (auto simp: highlightEffect_def isFileHighlighted_def)

theorem highlight_derivation_witness:
  "highlightEffect (Some documents_action) None [7] = [2, 5]
   \<and> highlightEffect (Some pages_action) None [7] = [3, 4]
   \<and> isFileHighlighted (Some write_action) ''/report/r.md''
   \<and> \<not> isFileHighlighted (Some write_action) ''/notes/n.txt''
   \<and> document_action (Some write_request) = None
   \<and> highlightEffect (document_action (Some write_request)) (Some doc1) [7] = [2, 5]
   \<and> file_action None = None
   \<and> \<not> isFileHighlighted (file_action None) ''/report/r.md''
   \<and> highlightEffect (Some no_documents_action) (Some doc1) [7] = [7]
   \<and> highlightEffect (Some write_action) (Some doc1) [7] = [7]
   \<and> highlightEffect (Some some_action) (Some doc1) [7] = [2, 5]
   \<and> highlightEffect (Some some_action) None [7] = [7]
   \<and> highlightEffect None None [7] = [7]"
proof -
  have d: "action_context documents_action
             = Some \<lparr>tool = Some ''get_documents'', documents = Some [doc1, doc2], pages = None,
                 file_path = None\<rparr>"
    and p: "action_context pages_action
             = Some \<lparr>tool = Some ''get_page_text'', documents = None,
                 pages = Some [\<lparr>page_num = 3\<rparr>, \<lparr>page_num = 4\<rparr>], file_path = None\<rparr>"
    and f: "action_context write_action
             = Some \<lparr>tool = None, documents = None, pages = None, file_path = Some ''/report/r.md''\<rparr>"
      "tool_name write_action = ''write_file''"
    and e: "action_context no_documents_action
             = Some \<lparr>tool = Some ''get_documents'', documents = Some [], pages = None,
                 file_path = None\<rparr>"
    and s: "action_context some_action = None"
    and n: "document_action (Some write_request) = None" "file_action None = None"
    by (simp_all add: documents_action_def pages_action_def write_action_def write_request_def
        no_documents_action_def some_action_def
        document_action_def file_action_def pending_action_def empty_payload_def)
  have 1: "highlightEffect (Some documents_action) None [7] = or_empty (significant_pages doc1)"
    using highlight_derivation [where a = documents_action and d = doc1 and ds = "[doc2]"
        and detail = None and prev = "[7]"
        and c = "\<lparr>tool = Some ''get_documents'', documents = Some [doc1, doc2], pages = None,
                 file_path = None\<rparr>"] d
    by simp
  have 2: "highlightEffect (Some pages_action) None [7]
      = map page_num [\<lparr>page_num = 3\<rparr>, \<lparr>page_num = 4\<rparr>]"
    using highlight_derivation [where a = pages_action and detail = None and prev = "[7]"
        and ps = "[\<lparr>page_num = 3\<rparr>, \<lparr>page_num = 4\<rparr>]"
        and c = "\<lparr>tool = Some ''get_page_text'', documents = None,
                 pages = Some [\<lparr>page_num = 3\<rparr>, \<lparr>page_num = 4\<rparr>], file_path = None\<rparr>"] p
    by simp
  have 3: "isFileHighlighted (Some write_action) q \<longleftrightarrow> q = ''/report/r.md''" for q
    using highlight_derivation [where a = write_action and p = "''/report/r.md''" and q = q
        and c = "\<lparr>tool = None, documents = None, pages = None, file_path = Some ''/report/r.md''\<rparr>"] f
    by simp
  have 4: "highlightEffect (document_action (Some write_request)) (Some doc1) [7]
      = or_empty (significant_pages doc1)"
    using highlight_derivation [where request = "Some write_request" and det = doc1 and prev = "[7]"] n
    by blast
  have 5: "\<not> isFileHighlighted (file_action None) ''/report/r.md''"
    using highlight_derivation [where request = None and q = "''/report/r.md''"] n by blast
  have 6: "highlightEffect (Some no_documents_action) (Some doc1) [7] = [7]"
    using highlight_derivation [where a = no_documents_action and detail = "Some doc1"
        and prev = "[7]"
        and c = "\<lparr>tool = Some ''get_documents'', documents = Some [], pages = None,
                 file_path = None\<rparr>"] e
    by simp
  have 7: "highlightEffect (Some write_action) (Some doc1) [7] = [7]"
    using highlight_derivation [where a = write_action and detail = "Some doc1" and prev = "[7]"
        and c = "\<lparr>tool = None, documents = None, pages = None, file_path = Some ''/report/r.md''\<rparr>"] f
    by simp
  have 8: "highlightEffect (Some some_action) (Some doc1) [7] = or_empty (significant_pages doc1)"
    "highlightEffect (Some some_action) None [7] = [7]"
    using highlight_derivation [where a = some_action and det = doc1 and prev = "[7]"] s
    by blast+
  have 9: "highlightEffect None None [7] = [7]"
    using highlight_derivation [where prev = "[7]"] by blast
  from 1 2 3 4 5 6 7 8 9 n show ?thesis by (simp add: doc1_def or_empty_def)
qed

section \<open>Properties of the file tree\<close>

subsection \<open>Stores that stay within the tree\<close>

lemma is_node_base: "is_node n \<Longrightarrow> base n = Root"
  by (induction n rule: is_node.induct) simp_all

lemma dirs_not_node: "is_node n \<Longrightarrow> \<not> is_node (Prop n ''dirs'')"
  by (induction n rule: is_node.induct) simp_all

lemma not_inherited [simp]:
  "''files'' \<notin> set inherited" "''dirs'' \<notin> set inherited"
  by (simp_all add: inherited_def)

lemma proto_inherited: "k \<notin> set inherited \<Longrightarrow> k \<noteq> ''__proto__''"
  by (auto simp: inherited_def)

lemma read_own:
  "unpolluted h \<Longrightarrow> k \<notin> set inherited \<Longrightarrow>
   read h x k = (if h (Prop x k) = None then None else Some (Prop x k))"
  by (auto simp: read_def unpolluted_def dest: proto_inherited)

lemma ensure_own:
  "unpolluted h \<Longrightarrow> k \<notin> set inherited \<Longrightarrow>
   ensure h x k new = ((if h (Prop x k) = None then h(Prop x k \<mapsto> new) else h), Prop x k)"
  by (simp add: ensure_def read_own)

lemma tree_ok_upd:
  assumes ok: "tree_ok h" and b: "base x = Root"
    and a: "v = PlainObj \<Longrightarrow> k = ''files'' \<Longrightarrow> \<not> is_node x"
    and p: "present h x"
  shows "tree_ok (h(Prop x k \<mapsto> v))"
proof -
  from b have x: "x \<noteq> Proto" by auto
  have u: "\<And>k. h (Prop Proto k) = None"
    and ar: "\<And>n. is_node n \<Longrightarrow> h (Prop n ''files'') \<noteq> Some PlainObj"
    and orph: "\<And>r j k. base r = Root \<Longrightarrow> h (Prop (Prop r j) k) \<noteq> None \<Longrightarrow> h (Prop r j) \<noteq> None"
    using ok unfolding tree_ok_def unpolluted_def by blast+
  have 1: "unpolluted (h(Prop x k \<mapsto> v))"
    using u x by (simp add: unpolluted_def)
  have 2: "(h(Prop x k \<mapsto> v)) (Prop n ''files'') \<noteq> Some PlainObj" if "is_node n" for n
  proof (cases "Prop n ''files'' = Prop x k")
    case True
    with that a show ?thesis by auto
  next
    case False
    with ar [OF that] show ?thesis by auto
  qed
  have 3: "(h(Prop x k \<mapsto> v)) (Prop r j) \<noteq> None"
    if "base r = Root" and "(h(Prop x k \<mapsto> v)) (Prop (Prop r j) k') \<noteq> None" for r j k'
  proof (cases "Prop (Prop r j) k' = Prop x k")
    case True
    then have "x = Prop r j" by simp
    with p have "h (Prop r j) \<noteq> None" by (simp add: present_def)
    then show ?thesis by simp
  next
    case False
    with that(2) have "h (Prop (Prop r j) k') \<noteq> None" by (auto split: if_splits)
    from orph [OF that(1) this] show ?thesis by auto
  qed
  from 1 2 3 show ?thesis unfolding tree_ok_def by blast
qed

lemma tree_ok_unpolluted: "tree_ok h \<Longrightarrow> unpolluted h"
  by (simp add: tree_ok_def)

lemma tree_ok_arrays: "tree_ok h \<Longrightarrow> is_node n \<Longrightarrow> h (Prop n ''files'') \<noteq> Some PlainObj"
  unfolding tree_ok_def by blast

lemma tree_ok_parent:
  "tree_ok h \<Longrightarrow> base r = Root \<Longrightarrow> h (Prop (Prop r j) k) \<noteq> None \<Longrightarrow> h (Prop r j) \<noteq> None"
  unfolding tree_ok_def by blast

lemma entries_of_simps [simp]:
  "h a = None \<Longrightarrow> entries_of h a = []"
  "h a = Some PlainObj \<Longrightarrow> entries_of h a = []"
  "h a = Some (ArrayObj es) \<Longrightarrow> entries_of h a = es"
  by (simp_all add: entries_of_def)

subsection \<open>One insertion\<close>

text \<open>The last part of a path: the entry is pushed onto the node's own list.\<close>

lemma insert_last:
  assumes ok: "tree_ok h" and n: "is_node n" and p: "present h n"
  shows "insert_file f [part] n h
     = Returns (h(Prop n ''files'' \<mapsto> ArrayObj (entries_of h (Prop n ''files'') @ [tree_entry f part])))"
proof (cases "h (Prop n ''files'')")
  case None
  then show ?thesis
    by (simp add: ensure_own [OF tree_ok_unpolluted [OF ok]])
next
  case (Some v)
  with tree_ok_arrays [OF ok n] obtain es where "h (Prop n ''files'') = Some (ArrayObj es)"
    by (cases v) auto
  then show ?thesis
    by (simp add: ensure_own [OF tree_ok_unpolluted [OF ok]])
qed

lemma insert_effect:
  assumes "tree_ok h" and "is_node n" and "present h n" and "ps \<noteq> []"
    and "\<forall>d \<in> set (butlast ps). d \<notin> set inherited"
  shows "\<exists>h'. insert_file f ps n h = Returns h' \<and> tree_ok h'
     \<and> (\<forall>r. r \<noteq> target n ps \<longrightarrow>
           h' r = h r \<or> (r \<in> set (new_refs n ps) \<and> h r = None \<and> h' r = Some PlainObj))
     \<and> h' (target n ps) = Some (ArrayObj (entries_of h (target n ps) @ [tree_entry f (last ps)]))
     \<and> (\<forall>r \<in> set (new_refs n ps). h' r \<noteq> None)"
  using assms
proof (induction f ps n h rule: insert_file.induct)
  case (1 f current h)
  then show ?case by simp
next
  case (2 f part current h)
  let ?t = "Prop current ''files''"
  let ?h' = "h(?t \<mapsto> ArrayObj (entries_of h ?t @ [tree_entry f part]))"
  have w: "insert_file f [part] current h = Returns ?h'"
    by (rule insert_last [OF "2.prems"(1,2,3)])
  have ok: "tree_ok ?h'"
    by (rule tree_ok_upd [OF "2.prems"(1) is_node_base [OF "2.prems"(2)] _ "2.prems"(3)]) simp
  show ?case
  proof (rule exI [of _ ?h'], intro conjI allI impI ballI)
    show "insert_file f [part] current h = Returns ?h'" by (rule w)
    show "tree_ok ?h'" by (rule ok)
  next
    fix r assume "r \<noteq> target current [part]"
    then show "?h' r = h r \<or> (r \<in> set (new_refs current [part]) \<and> h r = None \<and> ?h' r = Some PlainObj)"
      by (simp add: target_def)
  next
    show "?h' (target current [part])
        = Some (ArrayObj (entries_of h (target current [part]) @ [tree_entry f (last [part])]))"
      by (simp add: target_def)
  next
    fix r assume "r \<in> set (new_refs current [part])"
    then show "?h' r \<noteq> None" by simp
  qed
next
  case (3 f part v va current h)
  let ?rest = "v # va"
  let ?D = "Prop current ''dirs''"
  let ?next = "Prop ?D part"
  define h1 where "h1 = (if h ?D = None then h(?D \<mapsto> PlainObj) else h)"
  define h2 where "h2 = (if h1 ?next = None then h1(?next \<mapsto> PlainObj) else h1)"
  from "3.prems"(5) have part: "part \<notin> set inherited"
    and rest: "\<forall>d \<in> set (butlast ?rest). d \<notin> set inherited"
    by simp_all
  have ok1: "tree_ok h1"
  proof (cases "h ?D = None")
    case True
    have "tree_ok (h(?D \<mapsto> PlainObj))"
      by (rule tree_ok_upd [OF "3.prems"(1) is_node_base [OF "3.prems"(2)] _ "3.prems"(3)]) simp
    with True show ?thesis by (simp add: h1_def)
  next
    case False
    with "3.prems"(1) show ?thesis by (auto simp: h1_def)
  qed
  have e1: "ensure h current ''dirs'' PlainObj = (h1, ?D)"
    by (simp add: ensure_own [OF tree_ok_unpolluted [OF "3.prems"(1)]] h1_def)
  have h1D: "h1 ?D \<noteq> None" by (simp add: h1_def)
  then have pD: "present h1 ?D" by (simp add: present_def)
  have bD: "base ?D = Root" using is_node_base [OF "3.prems"(2)] by simp
  have ok2: "tree_ok h2"
  proof (cases "h1 ?next = None")
    case True
    have "tree_ok (h1(?next \<mapsto> PlainObj))"
      by (rule tree_ok_upd [OF ok1 bD _ pD]) (rule dirs_not_node [OF "3.prems"(2)])
    with True show ?thesis by (simp add: h2_def)
  next
    case False
    with ok1 show ?thesis by (auto simp: h2_def)
  qed
  have e2: "ensure h1 ?D part PlainObj = (h2, ?next)"
    by (simp only: ensure_own [OF tree_ok_unpolluted [OF ok1] part] h2_def)
  have w: "insert_file f (part # ?rest) current h = insert_file f ?rest ?next h2"
    by (simp only: insert_file.simps e1 e2 prod.case)
  have nn: "is_node ?next" using "3.prems"(2) by simp
  have h2n: "h2 ?next \<noteq> None" by (simp add: h2_def)
  then have pn: "present h2 ?next" by (simp add: present_def)
  have h2D: "h2 ?D \<noteq> None" using h1D by (simp add: h2_def)
  have step: "h2 r = h r \<or> ((r = ?D \<or> r = ?next) \<and> h r = None \<and> h2 r = Some PlainObj)" for r
    by (auto simp: h1_def h2_def split: if_splits)
  from "3.IH" [OF e1 [symmetric] e2 [symmetric] ok2 nn pn _ rest]
  obtain h' where h': "insert_file f ?rest ?next h2 = Returns h'" and ok': "tree_ok h'"
    and ch: "\<And>r. r \<noteq> target ?next ?rest \<Longrightarrow>
          h' r = h2 r \<or> (r \<in> set (new_refs ?next ?rest) \<and> h2 r = None \<and> h' r = Some PlainObj)"
    and tg: "h' (target ?next ?rest)
          = Some (ArrayObj (entries_of h2 (target ?next ?rest) @ [tree_entry f (last ?rest)]))"
    and nw: "\<And>r. r \<in> set (new_refs ?next ?rest) \<Longrightarrow> h' r \<noteq> None"
    by (auto simp del: insert_file.simps new_refs.simps)
  have tt: "target current (part # ?rest) = target ?next ?rest"
    by (simp add: target_def)
  have mono: "h' r \<noteq> None" if "h2 r \<noteq> None" for r
  proof (cases "r = target ?next ?rest")
    case True
    with tg show ?thesis by simp
  next
    case False
    from ch [OF this] that show ?thesis by auto
  qed
  show ?case
  proof (rule exI [of _ h'], intro conjI allI impI ballI)
    show "insert_file f (part # ?rest) current h = Returns h'" using w h' by simp
    show "tree_ok h'" by (rule ok')
  next
    fix r assume "r \<noteq> target current (part # ?rest)"
    with tt have "r \<noteq> target ?next ?rest" by metis
    from ch [OF this] step [of r]
    show "h' r = h r \<or> (r \<in> set (new_refs current (part # ?rest)) \<and> h r = None \<and> h' r = Some PlainObj)"
      by (auto split: if_splits)
  next
    have "entries_of h2 (target ?next ?rest) = entries_of h (target ?next ?rest)"
      using step [of "target ?next ?rest"] by (auto simp: entries_of_def)
    with tg show "h' (target current (part # ?rest))
        = Some (ArrayObj (entries_of h (target current (part # ?rest))
             @ [tree_entry f (last (part # ?rest))]))"
      by (simp only: tt) simp
  next
    fix r assume "r \<in> set (new_refs current (part # ?rest))"
    then consider "r = ?D" | "r = ?next" | "r \<in> set (new_refs ?next ?rest)" by auto
    then show "h' r \<noteq> None"
    proof cases
      case 1
      from mono [OF h2D] 1 show ?thesis by simp
    next
      case 2
      from mono [OF h2n] 2 show ?thesis by simp
    next
      case 3
      then show ?thesis by (rule nw)
    qed
  qed
qed

subsection \<open>Access paths\<close>

lemma keys_node_from: "keys (node_from n ds) = keys n @ dir_keys ds"
  by (induction ds arbitrary: n) (simp_all add: dir_keys_def)

lemma dir_keys_inj: "dir_keys ds = dir_keys es \<Longrightarrow> ds = es"
proof (induction ds arbitrary: es)
  case Nil
  then show ?case by (cases es) (simp_all add: dir_keys_def)
next
  case (Cons d ds)
  then show ?case by (cases es) (auto simp: dir_keys_def)
qed

lemma node_from_inj: "node_from n ds = node_from n es \<longleftrightarrow> ds = es"
proof
  assume "node_from n ds = node_from n es"
  then have "keys (node_from n ds) = keys (node_from n es)" by simp
  then show "ds = es" by (simp add: keys_node_from dir_keys_inj)
qed simp

lemma base_node_from [simp]: "base (node_from n ds) = base n"
  by (induction ds arbitrary: n) simp_all

lemma is_node_node_from [simp]: "is_node (node_from n ds) = is_node n"
  by (induction ds arbitrary: n) simp_all

lemma keys_new_refs:
  "r \<in> set (new_refs n ps) \<Longrightarrow> \<exists>s. s \<noteq> [] \<and> keys r = keys n @ s"
proof (induction n ps rule: new_refs.induct)
  case (1 n)
  then show ?case by simp
next
  case (2 n part)
  then show ?case by simp
next
  case (3 n part v va)
  from "3.prems" consider "r = Prop n ''dirs''" | "r = Prop (Prop n ''dirs'') part"
    | "r \<in> set (new_refs (Prop (Prop n ''dirs'') part) (v # va))"
    by auto
  then show ?case
  proof cases
    case 1
    then show ?thesis by simp
  next
    case 2
    then show ?thesis by simp
  next
    case 3
    from "3.IH" [OF this] obtain s where "keys r = keys n @ [''dirs'', part] @ s" by auto
    then show ?thesis by simp
  qed
qed

lemma keys_new_refs_child:
  "r \<in> set (new_refs (Prop (Prop n ''dirs'') part) ps) \<Longrightarrow>
   \<exists>s. keys r = keys n @ [''dirs'', part] @ s"
  using keys_new_refs [of r "Prop (Prop n ''dirs'') part" ps] by auto

lemma traverses_Nil [simp]: "traverses ps [] \<longleftrightarrow> ps \<noteq> []"
  by (simp add: traverses_def)

lemma traverses_Cons [simp]:
  "traverses (p # ps) (d # ds) \<longleftrightarrow> p = d \<and> traverses ps ds"
  by (auto simp: traverses_def)

lemma traverses_Nil_left [simp]: "\<not> traverses [] ds"
  by (simp add: traverses_def)

lemma node_in_new_refs:
  "node_from n ds \<in> set (new_refs n ps) \<longleftrightarrow> ds \<noteq> [] \<and> traverses ps ds"
proof (induction n ps arbitrary: ds rule: new_refs.induct)
  case (1 n)
  show ?case by simp
next
  case (2 n part)
  have "node_from n ds \<noteq> Prop n ''files''"
  proof
    assume "node_from n ds = Prop n ''files''"
    then have "keys (node_from n ds) = keys (Prop n ''files'')" by simp
    then show False by (cases ds) (simp_all add: keys_node_from dir_keys_def)
  qed
  moreover have "\<not> (ds \<noteq> [] \<and> traverses [part] ds)"
    by (cases ds) simp_all
  ultimately show ?case by simp
next
  case (3 n part v va)
  let ?next = "Prop (Prop n ''dirs'') part"
  show ?case
  proof (cases ds)
    case Nil
    have "n \<noteq> Prop n ''dirs''" "n \<noteq> ?next"
      by (auto dest: arg_cong [where f = keys])
    moreover have "n \<notin> set (new_refs ?next (v # va))"
      using keys_new_refs_child [of n n part "v # va"] by auto
    ultimately show ?thesis using Nil by simp
  next
    case (Cons d ds')
    let ?x = "node_from (Prop (Prop n ''dirs'') d) ds'"
    have kx: "keys ?x = keys n @ [''dirs'', d] @ dir_keys ds'"
      by (simp add: keys_node_from)
    have 1: "?x \<noteq> Prop n ''dirs''"
      using kx by (auto dest: arg_cong [where f = keys])
    have 2: "?x = ?next \<longleftrightarrow> d = part \<and> ds' = []"
    proof
      assume "?x = ?next"
      then have "keys ?x = keys ?next" by simp
      with kx have "d = part" "dir_keys ds' = []" by simp_all
      then show "d = part \<and> ds' = []" using dir_keys_inj [of ds' "[]"] by (simp add: dir_keys_def)
    qed simp
    have 3: "?x \<in> set (new_refs ?next (v # va)) \<longleftrightarrow> d = part \<and> ds' \<noteq> [] \<and> traverses (v # va) ds'"
    proof (cases "d = part")
      case True
      with "3.IH" [of ds'] show ?thesis by simp
    next
      case False
      have "?x \<notin> set (new_refs ?next (v # va))"
      proof
        assume "?x \<in> set (new_refs ?next (v # va))"
        from keys_new_refs_child [OF this] kx False show False by auto
      qed
      with False show ?thesis by simp
    qed
    from 1 2 3 show ?thesis using Cons by auto
  qed
qed

subsection \<open>Reading a well-formed tree\<close>

lemma node_from_Prop: "\<exists>r' j'. node_from (Prop r j) ds = Prop r' j' \<and> base r' = base r"
  by (induction ds arbitrary: r j) (simp, fastforce)

lemma node_from_present:
  "tree_ok h \<Longrightarrow> base n = Root \<Longrightarrow> h (node_from (Prop (Prop n ''dirs'') d) ds) \<noteq> None \<Longrightarrow>
   h (Prop (Prop n ''dirs'') d) \<noteq> None"
proof (induction ds arbitrary: n d)
  case Nil
  then show ?case by simp
next
  case (Cons e es)
  let ?m = "Prop (Prop n ''dirs'') d"
  from Cons.prems have "h (node_from (Prop (Prop ?m ''dirs'') e) es) \<noteq> None" by simp
  from Cons.IH [OF Cons.prems(1) _ this] Cons.prems(2)
  have "h (Prop (Prop ?m ''dirs'') e) \<noteq> None" by simp
  from tree_ok_parent [OF Cons.prems(1) _ this] Cons.prems(2)
  have "h (Prop ?m ''dirs'') \<noteq> None" by simp
  from tree_ok_parent [OF Cons.prems(1) _ this] Cons.prems(2)
  show ?case by simp
qed

lemma has_dir_present:
  "tree_ok h \<Longrightarrow> is_node n \<Longrightarrow> has_dir h n ds \<longleftrightarrow> ds = [] \<or> h (node_from n ds) \<noteq> None"
proof (induction ds arbitrary: n)
  case Nil
  show ?case by simp
next
  case (Cons d ds)
  let ?D = "Prop n ''dirs''"
  let ?m = "Prop ?D d"
  note u = tree_ok_unpolluted [OF Cons.prems(1)]
  have bn: "base n = Root" by (rule is_node_base [OF Cons.prems(2)])
  have m: "is_node ?m" using Cons.prems(2) by simp
  have below: "h (node_from ?m ds) \<noteq> None \<Longrightarrow> h ?m \<noteq> None \<and> h ?D \<noteq> None"
  proof -
    assume "h (node_from ?m ds) \<noteq> None"
    from node_from_present [OF Cons.prems(1) bn this] have 1: "h ?m \<noteq> None" .
    from tree_ok_parent [OF Cons.prems(1) bn 1] 1 show ?thesis by simp
  qed
  show ?case
  proof (cases "h ?D = None")
    case True
    with below have "h (node_from ?m ds) = None" by blast
    with True show ?thesis by (simp add: read_own [OF u])
  next
    case False
    show ?thesis
    proof (cases "h ?m = None")
      case True
      with below have "h (node_from ?m ds) = None" by blast
      with True False show ?thesis by (simp add: read_own [OF u])
    next
      case m': False
      have "has_dir h n (d # ds) = has_dir h ?m ds"
        using False m' by (auto simp: read_own [OF u])
      also from Cons.IH [OF Cons.prems(1) m]
      have "\<dots> \<longleftrightarrow> ds = [] \<or> h (node_from ?m ds) \<noteq> None" .
      also have "\<dots> \<longleftrightarrow> h (node_from ?m ds) \<noteq> None"
        using m' by (cases ds) auto
      finally show ?thesis by simp
    qed
  qed
qed

lemma files_at_entries:
  "tree_ok h \<Longrightarrow> is_node n \<Longrightarrow> files_at h n ds = entries_of h (Prop (node_from n ds) ''files'')"
proof (induction ds arbitrary: n)
  case Nil
  note u = tree_ok_unpolluted [OF Nil.prems(1)]
  show ?case by (simp add: read_own [OF u])
next
  case (Cons d ds)
  let ?D = "Prop n ''dirs''"
  let ?m = "Prop ?D d"
  let ?t = "Prop (node_from ?m ds) ''files''"
  note u = tree_ok_unpolluted [OF Cons.prems(1)]
  have bn: "base n = Root" by (rule is_node_base [OF Cons.prems(2)])
  have m: "is_node ?m" using Cons.prems(2) by simp
  have gone: "h ?t = None" if "h ?D = None \<or> h ?m = None"
  proof (rule ccontr)
    assume a: "h ?t \<noteq> None"
    from node_from_Prop [of ?D d ds] bn obtain r j
      where rj: "node_from ?m ds = Prop r j" "base r = Root"
      by auto
    from tree_ok_parent [OF Cons.prems(1) rj(2), of j "''files''"] a rj(1)
    have "h (node_from ?m ds) \<noteq> None" by simp
    from node_from_present [OF Cons.prems(1) bn this] have 1: "h ?m \<noteq> None" .
    from tree_ok_parent [OF Cons.prems(1) bn 1] have 2: "h ?D \<noteq> None" .
    from 1 2 that show False by auto
  qed
  show ?case
  proof (cases "h ?D = None \<or> h ?m = None")
    case True
    from gone [OF True] True show ?thesis by (auto simp: read_own [OF u])
  next
    case False
    with Cons.IH [OF Cons.prems(1) m] show ?thesis by (auto simp: read_own [OF u])
  qed
qed

subsection \<open>The whole list\<close>

lemma node_prop_not_node: "is_node n \<Longrightarrow> \<not> is_node (Prop n k)"
proof (induction n rule: is_node.induct)
  case 1
  show ?case by simp
next
  case (2 r d k')
  then show ?case using dirs_not_node [of r] by simp
qed simp_all

lemma insert_root:
  assumes ok: "tree_ok h" and inh: "\<forall>d \<in> set (butlast ps). d \<notin> set inherited"
  shows "\<exists>h'. insert_file f ps Root h = Returns h' \<and> tree_ok h'
     \<and> (\<forall>ds. has_dir h' Root ds \<longleftrightarrow> has_dir h Root ds \<or> traverses ps ds)
     \<and> (\<forall>ds. files_at h' Root ds = files_at h Root ds
            @ (if ps \<noteq> [] \<and> butlast ps = ds then [tree_entry f (last ps)] else []))"
proof (cases "ps = []")
  case True
  with ok show ?thesis by simp
next
  case False
  have root: "is_node Root" "present h Root" by (simp_all add: present_def)
  from insert_effect [OF ok root False inh, of f]
  obtain h' where w: "insert_file f ps Root h = Returns h'" and ok': "tree_ok h'"
    and ch: "\<And>r. r \<noteq> target Root ps \<Longrightarrow>
          h' r = h r \<or> (r \<in> set (new_refs Root ps) \<and> h r = None \<and> h' r = Some PlainObj)"
    and tg: "h' (target Root ps)
          = Some (ArrayObj (entries_of h (target Root ps) @ [tree_entry f (last ps)]))"
    and nw: "\<And>r. r \<in> set (new_refs Root ps) \<Longrightarrow> h' r \<noteq> None"
    by blast
  have d: "has_dir h' Root ds \<longleftrightarrow> has_dir h Root ds \<or> traverses ps ds" for ds
  proof (cases "ds = []")
    case True
    then show ?thesis by simp
  next
    case ne: False
    let ?x = "node_from Root ds"
    have "?x \<noteq> target Root ps"
    proof
      assume "?x = target Root ps"
      then have "is_node (Prop (node_from Root (butlast ps)) ''files'')"
        using is_node_node_from [of Root ds] by (simp add: target_def)
      with node_prop_not_node [of "node_from Root (butlast ps)" "''files''"] show False by simp
    qed
    from ch [OF this] have c: "h' ?x = h ?x \<or> (?x \<in> set (new_refs Root ps) \<and> h ?x = None \<and> h' ?x = Some PlainObj)" .
    have m: "?x \<in> set (new_refs Root ps) \<longleftrightarrow> traverses ps ds"
      using node_in_new_refs [of Root ds ps] ne by simp
    have "h' ?x \<noteq> None \<longleftrightarrow> h ?x \<noteq> None \<or> traverses ps ds"
    proof
      assume "h' ?x \<noteq> None"
      with c m show "h ?x \<noteq> None \<or> traverses ps ds" by auto
    next
      assume "h ?x \<noteq> None \<or> traverses ps ds"
      then show "h' ?x \<noteq> None"
      proof
        assume "h ?x \<noteq> None"
        with c show ?thesis by auto
      next
        assume "traverses ps ds"
        with m nw show ?thesis by blast
      qed
    qed
    with ne show ?thesis
      by (simp add: has_dir_present [OF ok] has_dir_present [OF ok'])
  qed
  have fl: "files_at h' Root ds = files_at h Root ds
        @ (if ps \<noteq> [] \<and> butlast ps = ds then [tree_entry f (last ps)] else [])" for ds
  proof (cases "butlast ps = ds")
    case True
    then have "Prop (node_from Root ds) ''files'' = target Root ps" by (simp add: target_def)
    with tg False True show ?thesis
      by (simp add: files_at_entries [OF ok] files_at_entries [OF ok'])
  next
    case ne: False
    let ?r = "Prop (node_from Root ds) ''files''"
    from ne have "?r \<noteq> target Root ps"
      by (simp add: target_def node_from_inj)
    from ch [OF this] have "entries_of h' ?r = entries_of h ?r"
      by (auto simp: entries_of_def)
    with ne show ?thesis
      by (simp add: files_at_entries [OF ok] files_at_entries [OF ok'])
  qed
  from w ok' d fl show ?thesis by blast
qed

lemma build_from_snoc:
  "build_from (fs @ [f]) h =
     (case build_from fs h of
        Returns h' \<Rightarrow> insert_file f (parts f) Root h'
      | Throws e h' \<Rightarrow> Throws e h')"
  by (induction fs arbitrary: h) (auto split: result.splits)

lemma placed_snoc:
  "placed (fs @ [f]) ds = placed fs ds
     @ (if parts f \<noteq> [] \<and> butlast (parts f) = ds then [tree_entry f (last (parts f))] else [])"
  by (simp add: placed_def)

lemma build_shape:
  assumes "no_inherited_dirs fs" and "tree_ok h"
    and "\<And>ds. has_dir h Root ds \<longleftrightarrow> ds = []" and "\<And>ds. files_at h Root ds = []"
  shows "\<exists>h'. build_from fs h = Returns h' \<and> tree_ok h'
     \<and> (\<forall>ds. has_dir h' Root ds \<longleftrightarrow> ds = [] \<or> (\<exists>f \<in> set fs. traverses (parts f) ds))
     \<and> (\<forall>ds. files_at h' Root ds = placed fs ds)"
  using assms(1)
proof (induction fs rule: rev_induct)
  case Nil
  show ?case using assms(2,3,4) by (simp add: placed_def)
next
  case (snoc f fs)
  from snoc.prems have "no_inherited_dirs fs"
    and inh: "\<forall>d \<in> set (butlast (parts f)). d \<notin> set inherited"
    by (simp_all add: no_inherited_dirs_def list_all_iff)
  with snoc.IH obtain h1 where b: "build_from fs h = Returns h1" and ok1: "tree_ok h1"
    and d1: "\<And>ds. has_dir h1 Root ds \<longleftrightarrow> ds = [] \<or> (\<exists>f \<in> set fs. traverses (parts f) ds)"
    and f1: "\<And>ds. files_at h1 Root ds = placed fs ds"
    by blast
  from insert_root [OF ok1 inh, of f]
  obtain h' where w: "insert_file f (parts f) Root h1 = Returns h'" and ok': "tree_ok h'"
    and d': "\<And>ds. has_dir h' Root ds \<longleftrightarrow> has_dir h1 Root ds \<or> traverses (parts f) ds"
    and f': "\<And>ds. files_at h' Root ds = files_at h1 Root ds
            @ (if parts f \<noteq> [] \<and> butlast (parts f) = ds then [tree_entry f (last (parts f))] else [])"
    by blast
  have 1: "build_from (fs @ [f]) h = Returns h'"
    using b w by (simp add: build_from_snoc)
  have 2: "has_dir h' Root ds \<longleftrightarrow> ds = [] \<or> (\<exists>g \<in> set (fs @ [f]). traverses (parts g) ds)" for ds
    using d' [of ds] d1 [of ds] by auto
  have 3: "files_at h' Root ds = placed (fs @ [f]) ds" for ds
    using f' [of ds] f1 [of ds] by (simp only: placed_snoc)
  from 1 ok' 2 3 show ?case by blast
qed

lemma tree_ok_new_tree: "unpolluted h \<Longrightarrow> tree_ok (new_tree h)"
  unfolding tree_ok_def unpolluted_def new_tree_def
  by (auto dest: is_node_base)

lemma has_dir_new_tree: "unpolluted h \<Longrightarrow> has_dir (new_tree h) Root ds \<longleftrightarrow> ds = []"
  using read_own [OF tree_ok_unpolluted [OF tree_ok_new_tree], of h "''dirs''" Root]
  by (cases ds) (simp_all add: new_tree_def)

lemma files_at_new_tree: "unpolluted h \<Longrightarrow> files_at (new_tree h) Root ds = []"
  using read_own [OF tree_ok_unpolluted [OF tree_ok_new_tree], of h "''dirs''" Root]
    read_own [OF tree_ok_unpolluted [OF tree_ok_new_tree], of h "''files''" Root]
  by (cases ds) (simp_all add: new_tree_def)

lemma parts_no_empty: "[] \<notin> set (parts f)"
  by (simp add: parts_def)

lemma traverses_append: "traverses ps ds \<Longrightarrow> \<exists>rest. rest \<noteq> [] \<and> ps = ds @ rest"
proof -
  assume "traverses ps ds"
  then have l: "length ds < length ps" and t: "take (length ds) ps = ds"
    by (simp_all add: traverses_def)
  from l have "drop (length ds) ps \<noteq> []" by simp
  moreover from t have "ps = ds @ drop (length ds) ps"
    using append_take_drop_id [of "length ds" ps] by simp
  ultimately show ?thesis by blast
qed

subsection \<open>Paths through inherited names\<close>

lemma parts_examples:
  "parts file1 = [''report'', ''r.md'']" "parts notes_file = [''notes'', ''n.txt'']"
  "parts slash_file = []" "parts constructor_file = [''constructor'', ''x.md'']"
  "parts proto_file = [''__proto__'', ''p.md'']"
  "parts files_dir_file = [''__proto__'', ''files'', ''y.md'']"
  "parts dirs_dir_file = [''dirs'', ''z.md'']"
  by (simp_all add: parts_def file1_def notes_file_def slash_file_def constructor_file_def
      proto_file_def files_dir_file_def dirs_dir_file_def)

lemma pristine_apply [simp]: "pristine r = None"
  by (simp add: pristine_def)

lemma new_tree_pristine: "new_tree pristine = pristine"
  by (simp add: new_tree_def pristine_def)

lemma unpolluted_pristine: "unpolluted pristine"
  by (simp add: unpolluted_def)

lemma new_tree_prototype_heap:
  "new_tree prototype_heap = pristine(Prop Proto ''files'' \<mapsto> ArrayObj [tree_entry proto_file ''p.md''])"
  by (rule ext) (simp add: new_tree_def prototype_heap_def)

lemmas heap_eval = ensure_def read_def inherited_def entries_of_def

text \<open>
  A directory segment that is an inherited name is found although the code never made it.
  The walk goes on in the inherited object, and the tree gets no directory of that name.
\<close>

lemma read_inherited:
  "k \<in> set inherited \<Longrightarrow> h (Prop x k) = None \<Longrightarrow> unpolluted h \<Longrightarrow> x \<noteq> Proto \<Longrightarrow>
   read h x k = Some (if k = ''__proto__'' then Proto else Builtin k)"
  by (simp add: read_def unpolluted_def)

lemma inherited_dir_missing:
  assumes "k \<in> set inherited"
  shows "\<exists>h'. insert_file f [k, x] Root pristine = Returns h' \<and> \<not> has_dir h' Root [k]"
proof -
  let ?h1 = "pristine(Prop Root ''dirs'' \<mapsto> PlainObj)"
  let ?n = "if k = ''__proto__'' then Proto else Builtin k"
  let ?h' = "?h1(Prop ?n ''files'' \<mapsto> ArrayObj [tree_entry f x])"
  have u: "unpolluted ?h1" by (simp add: unpolluted_def)
  have e1: "ensure pristine Root ''dirs'' PlainObj = (?h1, Prop Root ''dirs'')"
    by (simp add: ensure_def read_def)
  have e2: "ensure ?h1 (Prop Root ''dirs'') k PlainObj = (?h1, ?n)"
    using read_inherited [OF assms _ u, of "Prop Root ''dirs''"] by (simp add: ensure_def)
  have e3: "ensure ?h1 ?n ''files'' (ArrayObj [])
      = (?h1(Prop ?n ''files'' \<mapsto> ArrayObj []), Prop ?n ''files'')"
    by (simp add: ensure_def read_def)
  have "insert_file f [k, x] Root pristine = Returns ?h'"
    by (simp only: insert_file.simps e1 e2 e3 prod.case) simp
  moreover have "\<not> has_dir ?h' Root [k]"
    by (simp add: read_def)
  ultimately show ?thesis by blast
qed

text \<open>
  For the path \<open>constructor/x.md\<close> the lookup \<open>current.dirs['constructor']\<close> finds the
  function \<open>Object\<close>: the entry is pushed onto \<open>Object.files\<close>, and the tree returned is
  \<open>{dirs: {}}\<close>, with no directory \<open>constructor\<close> and the file nowhere.
\<close>

lemma constructor_example:
  "buildFileTree pristine [constructor_file] = Returns outside_heap
   \<and> traverses (parts constructor_file) [''constructor'']
   \<and> \<not> has_dir outside_heap Root [''constructor'']
   \<and> files_at outside_heap Root [] = []
   \<and> files_at outside_heap Root [''constructor''] = []"
proof -
  have 1: "buildFileTree pristine [constructor_file] = Returns outside_heap"
    by (simp add: buildFileTree_def new_tree_pristine parts_examples outside_heap_def heap_eval)
  have 2: "traverses (parts constructor_file) [''constructor'']"
    by (simp add: parts_examples)
  have 3: "\<not> has_dir outside_heap Root [''constructor'']"
    "files_at outside_heap Root [] = []" "files_at outside_heap Root [''constructor''] = []"
    by (simp_all add: outside_heap_def heap_eval)
  from 1 2 3 show ?thesis by simp
qed

text \<open>
  A call on the path \<open>__proto__/p.md\<close> leaves its entry in \<open>Object.prototype.files\<close>, a
  list that every object then inherits.  In a later call on the single file
  \<open>/report/r.md\<close> the test \<open>!current.files\<close> finds that list at the node \<open>report\<close>, which
  gets no list of its own: the entry joins the inherited list, and that list, with both
  entries, is what \<open>files\<close> reads at the root and at \<open>report\<close>.
\<close>

lemma prototype_example:
  "buildFileTree pristine [proto_file] = Returns prototype_heap
   \<and> \<not> unpolluted prototype_heap
   \<and> buildFileTree prototype_heap [file1] = Returns later_heap
   \<and> later_heap (Prop (Prop (Prop Root ''dirs'') ''report'') ''files'') = None
   \<and> files_at later_heap Root [] = [tree_entry proto_file ''p.md'', tree_entry file1 ''r.md'']
   \<and> files_at later_heap Root [''report'']
        = [tree_entry proto_file ''p.md'', tree_entry file1 ''r.md'']"
proof -
  have 1: "buildFileTree pristine [proto_file] = Returns prototype_heap"
    by (simp add: buildFileTree_def new_tree_pristine parts_examples prototype_heap_def heap_eval)
  have 2: "\<not> unpolluted prototype_heap"
    by (auto simp: unpolluted_def prototype_heap_def)
  have 3: "buildFileTree prototype_heap [file1] = Returns later_heap"
    by (simp add: buildFileTree_def new_tree_prototype_heap parts_examples later_heap_def heap_eval)
  have 4: "later_heap (Prop (Prop (Prop Root ''dirs'') ''report'') ''files'') = None"
    "files_at later_heap Root [] = [tree_entry proto_file ''p.md'', tree_entry file1 ''r.md'']"
    "files_at later_heap Root [''report'']
       = [tree_entry proto_file ''p.md'', tree_entry file1 ''r.md'']"
    by (simp_all add: later_heap_def heap_eval)
  from 1 2 3 4 show ?thesis by simp
qed

text \<open>
  The \<open>TypeError\<close> can happen.  The first path makes \<open>Object.prototype.dirs\<close> and, in
  it, a directory \<open>files\<close>; the second finds \<open>Object.prototype.dirs\<close> under the name
  \<open>dirs\<close> and takes that directory for the list \<open>current.files\<close>.
\<close>

lemma push_example:
  "\<exists>t. buildFileTree pristine [files_dir_file, dirs_dir_file]
     = Throws ''TypeError: current.files.push is not a function'' t"
  by (simp add: buildFileTree_def new_tree_pristine parts_examples heap_eval)

subsection \<open>The shape of the tree\<close>

text \<open>
  C9 as stated fails.  A file whose path is \<open>/\<close> has no non-empty segment: the loop over
  its parts does nothing, the store stays as it was, and the file appears nowhere in the
  tree, which stays empty.
\<close>

theorem slash_file_missing_counterexample:
  "buildFileTree pristine [slash_file] = Returns pristine
   \<and> files_at pristine Root [] = []"
  by (simp add: buildFileTree_def new_tree_pristine parts_examples heap_eval)

text \<open>
  C9 as amended.  Take a list of workspace files in which no directory segment of a path
  is a property name that every object inherits, and a store in which the code has
  assigned no property of \<open>Object.prototype\<close>.  Then \<open>buildFileTree\<close> returns, and the tree
  has a directory node at a path exactly when the path is empty (the root) or some file's
  parts go through it; the files listed at a node are, in the order of the list, one entry
  for each file of the list whose non-empty segments are that node's path followed by a
  name, so every file with at least one non-empty segment appears exactly once, there, and
  a file with none appears nowhere.  Every directory node other than the root has a file
  below it, and no directory or file in the tree has an empty name.
\<close>

theorem buildFileTree_shape:
  assumes "no_inherited_dirs fs" and "unpolluted h"
  shows "\<exists>t. buildFileTree h fs = Returns t
     \<and> (\<forall>ds. has_dir t Root ds \<longleftrightarrow> ds = [] \<or> (\<exists>f \<in> set fs. traverses (parts f) ds))
     \<and> (\<forall>ds. files_at t Root ds = placed fs ds)
     \<and> (\<forall>ds. has_dir t Root ds \<and> ds \<noteq> [] \<longrightarrow> (\<exists>ds'. files_at t Root (ds @ ds') \<noteq> []))
     \<and> (\<forall>ds. has_dir t Root ds \<longrightarrow> [] \<notin> set ds)
     \<and> (\<forall>ds. \<forall>e \<in> set (files_at t Root ds). name e \<noteq> [])"
proof -
  from build_shape [OF assms(1) tree_ok_new_tree [OF assms(2)]
      has_dir_new_tree [OF assms(2)] files_at_new_tree [OF assms(2)]]
  obtain t where t: "buildFileTree h fs = Returns t"
    and d: "\<And>ds. has_dir t Root ds \<longleftrightarrow> ds = [] \<or> (\<exists>f \<in> set fs. traverses (parts f) ds)"
    and fl: "\<And>ds. files_at t Root ds = placed fs ds"
    unfolding buildFileTree_def by blast
  have ne: "\<exists>ds'. files_at t Root (ds @ ds') \<noteq> []" if "has_dir t Root ds" and "ds \<noteq> []" for ds
  proof -
    from that d [of ds] obtain f where f: "f \<in> set fs" "traverses (parts f) ds" by blast
    from traverses_append [OF f(2)] obtain rest where rest: "rest \<noteq> []" "parts f = ds @ rest"
      by blast
    then have "butlast (parts f) = ds @ butlast rest" "parts f \<noteq> []"
      by (simp_all add: butlast_append)
    with f(1) have "tree_entry f (last (parts f)) \<in> set (placed fs (ds @ butlast rest))"
      by (auto simp: placed_def)
    then have "files_at t Root (ds @ butlast rest) \<noteq> []"
      by (auto simp: fl)
    then show ?thesis by blast
  qed
  have nm: "[] \<notin> set ds" if "has_dir t Root ds" for ds
  proof (cases "ds = []")
    case True
    then show ?thesis by simp
  next
    case False
    with that d [of ds] obtain f where "traverses (parts f) ds" by blast
    from traverses_append [OF this] obtain rest where "parts f = ds @ rest" by blast
    with parts_no_empty [of f] show ?thesis by auto
  qed
  have en: "name e \<noteq> []" if "e \<in> set (files_at t Root ds)" for e ds
  proof -
    from that obtain f where "parts f \<noteq> []" "e = tree_entry f (last (parts f))"
      by (auto simp: fl placed_def)
    moreover from this have "last (parts f) \<in> set (parts f)" by simp
    with parts_no_empty [of f] have "last (parts f) \<noteq> []" by auto
    ultimately show ?thesis by (simp add: tree_entry_def)
  qed
  show ?thesis
  proof (rule exI [of _ t], intro conjI allI impI ballI)
    show "buildFileTree h fs = Returns t" by (rule t)
  next
    fix ds show "has_dir t Root ds \<longleftrightarrow> ds = [] \<or> (\<exists>f \<in> set fs. traverses (parts f) ds)"
      by (rule d)
  next
    fix ds show "files_at t Root ds = placed fs ds" by (rule fl)
  next
    fix ds assume "has_dir t Root ds \<and> ds \<noteq> []"
    then show "\<exists>ds'. files_at t Root (ds @ ds') \<noteq> []" using ne by blast
  next
    fix ds assume "has_dir t Root ds"
    then show "[] \<notin> set ds" by (rule nm)
  next
    fix ds e assume "e \<in> set (files_at t Root ds)"
    then show "name e \<noteq> []" by (rule en)
  qed
qed

theorem buildFileTree_shape_witness:
  "no_inherited_dirs [file1, notes_file, slash_file] \<and> unpolluted pristine
   \<and> (\<exists>t. buildFileTree pristine [file1, notes_file, slash_file] = Returns t
        \<and> has_dir t Root [''report''] \<and> \<not> has_dir t Root [''report'', ''r.md'']
        \<and> files_at t Root [''notes''] = [tree_entry notes_file ''n.txt''])"
proof -
  have h: "no_inherited_dirs [file1, notes_file, slash_file]"
    by (simp add: no_inherited_dirs_def parts_examples inherited_def)
  from buildFileTree_shape [OF h unpolluted_pristine] obtain t where
    t: "buildFileTree pristine [file1, notes_file, slash_file] = Returns t"
    and d: "\<And>ds. has_dir t Root ds \<longleftrightarrow>
          ds = [] \<or> (\<exists>f \<in> set [file1, notes_file, slash_file]. traverses (parts f) ds)"
    and fl: "\<And>ds. files_at t Root ds = placed [file1, notes_file, slash_file] ds"
    by blast
  have "has_dir t Root [''report'']"
    by (subst d) (simp add: parts_examples)
  moreover have "\<not> has_dir t Root [''report'', ''r.md'']"
    by (subst d) (simp add: parts_examples)
  moreover have "files_at t Root [''notes''] = [tree_entry notes_file ''n.txt'']"
    by (subst fl) (simp add: placed_def parts_examples)
  ultimately show ?thesis using h t unpolluted_pristine by blast
qed

end
